theory Spec2Isabelle
  imports Main "HOL-Library.Word" "HOL-Library.Signed_Division"
begin

unbundle bit_operations_syntax

section \<open>The frequency sketch of \<^verbatim>\<open>frequency_sketch.h\<close>\<close>

text \<open>
  The class \<^verbatim>\<open>FrequencySketch<T>\<close> keeps a vector of 64-bit blocks, each holding
  sixteen 4-bit counters, and a tally \<^verbatim>\<open>m_size\<close>. The embedding below follows the
  member functions one by one.

  Conventions.
  \<^item> \<^verbatim>\<open>uint64_t\<close> and \<^verbatim>\<open>uint32_t\<close> are \<open>64 word\<close> and \<open>32 word\<close>: multiplication
    and addition wrap around as in the source.
  \<^item> A value of the C++ type \<^verbatim>\<open>int\<close> is the mathematical integer it denotes (an
    Isabelle \<open>int\<close>). Every conversion of a wider unsigned value to \<^verbatim>\<open>int\<close> is
    written out (\<open>to_int\<close>: the low 32 bits read as two's complement), and so is
    the wrap-around of \<^verbatim>\<open>++m_size\<close> (\<open>wrap_int\<close>).
  \<^item> A member function that mutates the object takes the state and returns the new one.
  \<^item> \<^verbatim>\<open>std::vector::operator[]\<close> is \<open>!\<close> and \<open>list_update\<close>; lemma
    \<open>get_table_index_range\<close> shows that for a table whose length is a power of two
    (at most \<open>2 ^ 31\<close>) every index the class computes is inside the table, so the
    out-of-range behaviour is never reached.
\<close>

subsection \<open>Data\<close>

type_synonym uint64_t = "64 word"
type_synonym uint32_t = "32 word"

record FrequencySketch =
  m_table :: "uint64_t list"
  m_size :: int

datatype error = invalid_argument

subsection \<open>Conversions to \<^verbatim>\<open>int\<close>\<close>

definition to_int :: "uint64_t \<Rightarrow> int" where
  "to_int w = sint (ucast w :: 32 word)"

definition wrap_int :: "int \<Rightarrow> int" where
  "wrap_int x = sint (word_of_int x :: 32 word)"

subsection \<open>The collaborators of \<^verbatim>\<open>detail.h\<close>\<close>

text \<open>
  \<^verbatim>\<open>detail.h\<close> is not part of the sources at hand. It supplies
  \<^verbatim>\<open>detail::get_hash\<close>, which every operation below takes as the parameter
  \<open>get_hash :: 'a \<Rightarrow> uint32_t\<close>, and \<^verbatim>\<open>detail::get_nearest_power_of_two\<close>.
\<close>

text \<open>
  Modelled from the spec: the number of binary digits of a number, the exponent used by
  \<open>get_nearest_power_of_two\<close> below (\<^verbatim>\<open>detail.h\<close> is missing).
\<close>

fun bit_length :: "nat \<Rightarrow> nat" where
  "bit_length n = (if n = 0 then 0 else Suc (bit_length (n div 2)))"

text \<open>
  Modelled from the spec: \<^verbatim>\<open>detail::get_nearest_power_of_two\<close> is missing from the
  sources; the specification describes it as the utility that, given a positive integer
  capacity, returns the smallest power of two greater than or equal to the capacity.
  Lemma \<open>get_nearest_power_of_two_least\<close> shows that the definition is that number.
\<close>

definition get_nearest_power_of_two :: "nat \<Rightarrow> nat" where
  "get_nearest_power_of_two n = 2 ^ bit_length (n - 1)"

subsection \<open>Construction and resizing\<close>

text \<open>
  \<^verbatim>\<open>std::vector::resize(n)\<close> keeps the first \<open>n\<close> elements and appends
  value-initialised (zero) elements up to length \<open>n\<close>.
\<close>

definition resize :: "uint64_t list \<Rightarrow> nat \<Rightarrow> uint64_t list" where
  "resize v n = take n v @ replicate (n - length v) 0"

text \<open>
  \<^verbatim>\<open>change_capacity\<close> either throws \<^verbatim>\<open>std::invalid_argument\<close> or returns normally;
  the second component is the object after the call.
\<close>

definition change_capacity :: "FrequencySketch \<Rightarrow> int \<Rightarrow> (error + unit) \<times> FrequencySketch" where
  "change_capacity s capacity =
     (if capacity \<le> 0 then (Inl invalid_argument, s)
      else (Inr (),
            s\<lparr>m_table := resize (m_table s) (get_nearest_power_of_two (nat capacity)),
              m_size := 0\<rparr>))"

text \<open>
  The constructor runs \<^verbatim>\<open>change_capacity\<close> on the default-constructed (empty) vector.
  \<^verbatim>\<open>m_size\<close> has no initialiser: \<open>u\<close> is its indeterminate value before the call.
  An exception leaves no object.
\<close>

definition FrequencySketch_ctor :: "int \<Rightarrow> int \<Rightarrow> error + FrequencySketch" where
  "FrequencySketch_ctor u capacity =
     (case change_capacity \<lparr>m_table = [], m_size = u\<rparr> capacity of
        (Inl e, _) \<Rightarrow> Inl e
      | (Inr _, s) \<Rightarrow> Inr s)"

subsection \<open>Addressing\<close>

definition SEEDS :: "uint64_t list" where
  "SEEDS = [0xc3a5c85c97cb3127, 0xb492b66fbe98f273, 0x9ae16a3b2f90404f, 0xcbf29ce484222325]"

definition get_table_index :: "uint64_t list \<Rightarrow> uint32_t \<Rightarrow> nat \<Rightarrow> int" where
  "get_table_index tbl hash counter_index =
     (let h = SEEDS ! counter_index * ucast hash;
          h = h + drop_bit 32 h
      in to_int (h AND (of_nat (length tbl) - 1)))"

definition get_offset_multiplier :: "uint32_t \<Rightarrow> nat" where
  "get_offset_multiplier hash = unat (push_bit 2 (hash AND 3))"

definition get_counter_offset :: "uint32_t \<Rightarrow> nat \<Rightarrow> nat" where
  "get_counter_offset hash counter_index =
     push_bit 2 (get_offset_multiplier hash + counter_index)"

subsection \<open>Reading and incrementing a counter\<close>

text \<open>
  The expression \<^verbatim>\<open>(block >> offset) & 0xfL\<close> of \<^verbatim>\<open>get_count\<close>: the 4-bit counter
  of a block that starts at bit \<open>offset\<close>.
\<close>

definition counter_at :: "uint64_t \<Rightarrow> nat \<Rightarrow> uint64_t" where
  "counter_at block offset = drop_bit offset block AND 0xf"

definition get_count :: "uint64_t list \<Rightarrow> uint32_t \<Rightarrow> nat \<Rightarrow> int" where
  "get_count tbl hash counter_index =
     (let index = get_table_index tbl hash counter_index;
          offset = get_counter_offset hash counter_index
      in to_int (counter_at (tbl ! nat index) offset))"

definition can_increment_counter :: "uint64_t list \<Rightarrow> int \<Rightarrow> nat \<Rightarrow> bool" where
  "can_increment_counter tbl table_index offset =
     (let mask = push_bit offset 0xf
      in tbl ! nat table_index AND mask \<noteq> mask)"

definition try_increment_at :: "uint64_t list \<Rightarrow> uint32_t \<Rightarrow> nat \<Rightarrow> uint64_t list \<times> bool" where
  "try_increment_at tbl hash counter_index =
     (let table_index = get_table_index tbl hash counter_index;
          offset = get_counter_offset hash counter_index
      in if can_increment_counter tbl table_index offset
         then (tbl[nat table_index := tbl ! nat table_index + push_bit offset 1], True)
         else (tbl, False))"

subsection \<open>Aging\<close>

definition halve :: "uint64_t \<Rightarrow> uint64_t" where
  "halve counters = drop_bit 1 counters AND 0x7777777777777777"

definition reset :: "FrequencySketch \<Rightarrow> FrequencySketch" where
  "reset s = s\<lparr>m_table := map halve (m_table s), m_size := m_size s sdiv 2\<rparr>"

definition get_sampling_size :: "FrequencySketch \<Rightarrow> int" where
  "get_sampling_size s = to_int (of_nat (length (m_table s)) * 10)"

subsection \<open>The public operations\<close>

text \<open>
  The loop of \<^verbatim>\<open>get_frequency\<close>, started at \<^verbatim>\<open>unsigned(-1) >> 1\<close>, which is
  \<open>2 ^ 31 - 1\<close>.
\<close>

definition get_frequency :: "('a \<Rightarrow> uint32_t) \<Rightarrow> FrequencySketch \<Rightarrow> 'a \<Rightarrow> int" where
  "get_frequency get_hash s t =
     (let hash = get_hash t
      in fold (\<lambda>i frequency. min frequency (get_count (m_table s) hash i))
           [0, 1, 2, 3] (uint (drop_bit 1 (- 1 :: 32 word))))"

definition has :: "('a \<Rightarrow> uint32_t) \<Rightarrow> FrequencySketch \<Rightarrow> 'a \<Rightarrow> bool" where
  "has get_hash s t = (get_frequency get_hash s t > 0)"

text \<open>
  The loop of \<^verbatim>\<open>record_access\<close>: all four \<^verbatim>\<open>try_increment_at\<close> calls run
  (\<^verbatim>\<open>|=\<close> does not short-circuit); the result is the table and \<^verbatim>\<open>was_added\<close>.
\<close>

definition increment_all :: "uint64_t list \<Rightarrow> uint32_t \<Rightarrow> uint64_t list \<times> bool" where
  "increment_all tbl hash =
     fold (\<lambda>i (tbl, was_added).
             let (tbl', incremented) = try_increment_at tbl hash i
             in (tbl', was_added \<or> incremented))
       [0, 1, 2, 3] (tbl, False)"

text \<open>
  The condition \<^verbatim>\<open>was_added && (++m_size == get_sampling_size())\<close> under which
  \<^verbatim>\<open>record_access\<close> calls \<^verbatim>\<open>reset\<close>.
\<close>

definition aging_triggers :: "('a \<Rightarrow> uint32_t) \<Rightarrow> FrequencySketch \<Rightarrow> 'a \<Rightarrow> bool" where
  "aging_triggers get_hash s t =
     (snd (increment_all (m_table s) (get_hash t)) \<and>
      wrap_int (m_size s + 1) = get_sampling_size s)"

definition record_access :: "('a \<Rightarrow> uint32_t) \<Rightarrow> FrequencySketch \<Rightarrow> 'a \<Rightarrow> FrequencySketch" where
  "record_access get_hash s t =
     (let hash = get_hash t;
          (tbl, was_added) = increment_all (m_table s) hash
      in if was_added
         then (let s' = s\<lparr>m_table := tbl, m_size := wrap_int (m_size s + 1)\<rparr>
               in if m_size s' = get_sampling_size s' then reset s' else s')
         else s\<lparr>m_table := tbl\<rparr>)"

subsection \<open>Sequences of calls and the class invariant\<close>

text \<open>
  The table of a constructed sketch has a length that is a power of two; the length is
  at most \<open>2 ^ 31\<close> because the capacity is a C++ \<^verbatim>\<open>int\<close>.
\<close>

definition table_ok :: "uint64_t list \<Rightarrow> bool" where
  "table_ok tbl \<longleftrightarrow> (\<exists>k\<in>{0..31}. length tbl = 2 ^ k)"

text \<open>\<^verbatim>\<open>record_access\<close> called on each element of a list, in order.\<close>

fun record_all :: "('a \<Rightarrow> uint32_t) \<Rightarrow> FrequencySketch \<Rightarrow> 'a list \<Rightarrow> FrequencySketch" where
  "record_all get_hash s [] = s"
| "record_all get_hash s (t # ts) = record_all get_hash (record_access get_hash s t) ts"

text \<open>None of the calls of such a sequence runs the aging pass.\<close>

fun no_aging :: "('a \<Rightarrow> uint32_t) \<Rightarrow> FrequencySketch \<Rightarrow> 'a list \<Rightarrow> bool" where
  "no_aging get_hash s [] = True"
| "no_aging get_hash s (t # ts) =
     (\<not> aging_triggers get_hash s t \<and> no_aging get_hash (record_access get_hash s t) ts)"

text \<open>
  The value of \<^verbatim>\<open>was_added\<close> at the end of the loop of \<^verbatim>\<open>record_access\<close>: the call
  incremented at least one counter.
\<close>

definition was_added :: "('a \<Rightarrow> uint32_t) \<Rightarrow> FrequencySketch \<Rightarrow> 'a \<Rightarrow> bool" where
  "was_added get_hash s t = snd (increment_all (m_table s) (get_hash t))"



text \<open>The constant \<^verbatim>\<open>0x7777777777777777\<close> of \<^verbatim>\<open>halve\<close>, digit by digit.\<close>

fun sevens :: "nat \<Rightarrow> int" where
  "sevens 0 = 0"
| "sevens (Suc k) = 7 + 16 * sevens k"

text \<open>
  Two hashes collide in a table when one of the four counters of the first is one of the
  four counters of the second (same block and same offset).
\<close>

definition collides :: "uint64_t list \<Rightarrow> uint32_t \<Rightarrow> uint32_t \<Rightarrow> bool" where
  "collides tbl hash hash' \<longleftrightarrow>
     (\<exists>i\<in>{0..<4}. \<exists>i'\<in>{0..<4}.
        get_table_index tbl hash i = get_table_index tbl hash' i'
        \<and> get_counter_offset hash i = get_counter_offset hash' i')"


section \<open>Auxiliary facts\<close>

subsection \<open>The smallest power of two above a number\<close>

declare bit_length.simps [simp del]

lemma less_exp_bit_length: "n < 2 ^ bit_length n"
proof (induction n rule: bit_length.induct)
  case (1 n)
  show ?case
  proof (cases "n = 0")
    case True
    then show ?thesis by (simp add: bit_length.simps)
  next
    case False
    with 1 have "n div 2 < 2 ^ bit_length (n div 2)" by simp
    then have "n < 2 * 2 ^ bit_length (n div 2)" by linarith
    with False show ?thesis by (simp add: bit_length.simps [of n])
  qed
qed

lemma bit_length_le: "n < 2 ^ k \<Longrightarrow> bit_length n \<le> k"
proof (induction n arbitrary: k rule: bit_length.induct)
  case (1 n)
  show ?case
  proof (cases "n = 0")
    case True
    then show ?thesis by (simp add: bit_length.simps)
  next
    case False
    with "1.prems" obtain j where k: "k = Suc j" by (cases k) auto
    with "1.prems" have "n div 2 < 2 ^ j" by auto
    with 1 False have "bit_length (n div 2) \<le> j" by simp
    with False k show ?thesis by (simp add: bit_length.simps [of n])
  qed
qed

lemma get_nearest_power_of_two_ge: "n \<le> get_nearest_power_of_two n"
  using less_exp_bit_length [of "n - 1"] by (simp add: get_nearest_power_of_two_def)

lemma get_nearest_power_of_two_least:
  assumes "n \<le> 2 ^ j"
  shows "get_nearest_power_of_two n \<le> 2 ^ j"
proof -
  have "bit_length (n - 1) \<le> j"
  proof (cases "n = 0")
    case True
    then show ?thesis by (simp add: bit_length.simps)
  next
    case False
    with assms have "n - 1 < 2 ^ j" by simp
    then show ?thesis by (rule bit_length_le)
  qed
  then show ?thesis by (simp add: get_nearest_power_of_two_def)
qed

lemma get_nearest_power_of_two_10: "get_nearest_power_of_two 10 = 16"
  by (simp add: get_nearest_power_of_two_def bit_length.simps)

subsection \<open>Conversions and addressing\<close>

lemma to_int_take_bit:
  assumes "k \<le> 31"
  shows "to_int (take_bit k h) = uint (take_bit k h)"
proof -
  have "uint (take_bit k h) < 2 ^ k"
    by (simp add: unsigned_take_bit_eq)
  also have "(2::int) ^ k \<le> 2 ^ 31"
    using assms by (intro power_increasing) simp_all
  finally have small: "uint (take_bit k h) < 2 ^ 31" .
  then have "uint (ucast (take_bit k h) :: 32 word) = uint (take_bit k h)"
    by (simp add: unsigned_ucast_eq take_bit_int_eq_self)
  then have "sint (ucast (take_bit k h) :: 32 word) = signed_take_bit 31 (uint (take_bit k h))"
    by (simp add: sint_uint)
  also have "\<dots> = uint (take_bit k h)"
  proof (rule signed_take_bit_int_eq_self)
    have "(0::int) \<le> uint (take_bit k h)" by (rule unsigned_greater_eq)
    moreover have "- (2 ^ 31) \<le> (0::int)" by simp
    ultimately show "- (2 ^ 31) \<le> uint (take_bit k h)" by (rule order_trans [rotated])
    show "uint (take_bit k h) < 2 ^ 31" by (rule small)
  qed
  finally show ?thesis by (simp add: to_int_def)
qed

lemma get_table_index_range:
  assumes "table_ok tbl"
  shows "0 \<le> get_table_index tbl hash i \<and> get_table_index tbl hash i < int (length tbl)"
proof -
  from assms obtain k where k: "k \<le> 31" "length tbl = 2 ^ k"
    by (auto simp add: table_ok_def)
  have "(of_nat (length tbl) - 1 :: 64 word) = mask k"
    by (simp add: k mask_eq_exp_minus_1)
  then have idx: "get_table_index tbl hash i =
      uint (take_bit k (SEEDS ! i * ucast hash + drop_bit 32 (SEEDS ! i * ucast hash)))"
    by (simp add: get_table_index_def Let_def to_int_take_bit k flip: take_bit_eq_mask)
  show ?thesis
    unfolding idx by (simp add: k unsigned_take_bit_eq)
qed

lemma unat_and_3: "unat (hash AND (3 :: 32 word)) < 4"
proof -
  have "(3 :: 32 word) = mask 2" by (simp add: mask_eq_exp_minus_1)
  then have "hash AND 3 = take_bit 2 hash"
    by (simp only: take_bit_eq_mask)
  then have "unat (hash AND 3) = take_bit 2 (unat hash)"
    by (simp only: unsigned_take_bit_eq)
  also have "\<dots> < 2 ^ 2" by (rule take_bit_nat_less_exp)
  finally show ?thesis by simp
qed

lemma get_offset_multiplier_eq: "get_offset_multiplier hash = 4 * unat (hash AND 3)"
proof -
  have "unat (push_bit 2 (hash AND 3)) = (4 * unat (hash AND 3)) mod 2 ^ 32"
    by (simp add: push_bit_eq_mult unat_word_ariths mult.commute)
  also have "\<dots> = 4 * unat (hash AND 3)"
    using unat_and_3 [of hash] by simp
  finally show ?thesis by (simp add: get_offset_multiplier_def)
qed

lemma get_counter_offset_eq:
  "get_counter_offset hash i = 4 * (4 * unat (hash AND 3) + i)"
  by (simp add: get_counter_offset_def get_offset_multiplier_eq push_bit_eq_mult)

subsection \<open>One 64-bit block as sixteen counters\<close>

lemma f_mask: "(0xf :: 64 word) = mask 4"
  by (simp add: mask_eq_exp_minus_1)

lemma counter_at_mask: "counter_at w off = take_bit 4 (drop_bit off w)"
  by (simp add: counter_at_def f_mask take_bit_eq_mask)

lemma unat_counter_at_less: "unat (counter_at w off) < 16"
proof -
  have "unat (counter_at w off) = take_bit 4 (unat (drop_bit off w))"
    by (simp add: counter_at_mask unsigned_take_bit_eq)
  also have "\<dots> < 2 ^ 4" by (rule take_bit_nat_less_exp)
  finally show ?thesis by simp
qed

lemma to_int_counter_at: "to_int (counter_at w off) = int (unat (counter_at w off))"
  unfolding counter_at_mask by (simp add: to_int_take_bit)

lemma succ_small:
  fixes c :: "64 word"
  assumes "take_bit 4 c = c" "c \<noteq> 15"
  shows "take_bit 4 (c + 1) = c + 1" and "unat (c + 1) = unat c + 1"
proof -
  have "unat c = take_bit 4 (unat c)"
    using assms(1) by (metis unsigned_take_bit_eq)
  then have "unat c < 2 ^ 4"
    by (metis take_bit_nat_less_exp)
  moreover have "unat c \<noteq> 15"
    using assms(2) by (simp add: word_unat_eq_iff)
  ultimately have small: "unat c + 1 < 16" by simp
  then have "unat c + unat (1 :: 64 word) < 2 ^ LENGTH(64)" by simp
  then show *: "unat (c + 1) = unat c + 1"
    by (simp only: unat_add_lem) simp
  with small have "take_bit 4 (unat (c + 1)) = unat (c + 1)"
    by (simp add: take_bit_nat_eq_self)
  then show "take_bit 4 (c + 1) = c + 1"
    by (simp add: word_unat_eq_iff unsigned_take_bit_eq)
qed

lemma split_block:
  fixes w :: "64 word"
  shows "w = (w AND NOT (push_bit off (mask 4))) + push_bit off (take_bit 4 (drop_bit off w))"
proof -
  have "(w AND NOT (push_bit off (mask 4))) + push_bit off (take_bit 4 (drop_bit off w))
      = (w AND NOT (push_bit off (mask 4))) OR push_bit off (take_bit 4 (drop_bit off w))"
    by (rule disjunctive_add_eq_or, rule bit_eqI) (auto simp add: bit_simps)
  also have "\<dots> = w"
    by (rule bit_eqI) (auto simp add: bit_simps)
  finally show ?thesis by simp
qed

lemma increment_block:
  fixes w :: "64 word"
  assumes "counter_at w off \<noteq> 15"
  shows "w + push_bit off 1 =
         (w AND NOT (push_bit off (mask 4))) OR push_bit off (take_bit 4 (counter_at w off + 1))"
proof -
  let ?c = "counter_at w off"
  let ?r = "w AND NOT (push_bit off (mask 4))"
  have c: "take_bit 4 (?c + 1) = ?c + 1"
    using assms by (intro succ_small) (simp_all add: counter_at_mask)
  have "w + push_bit off 1 = ?r + push_bit off ?c + push_bit off 1"
    using split_block [of w off] by (simp add: counter_at_mask)
  also have "\<dots> = ?r + push_bit off (?c + 1)"
    by (simp add: push_bit_add)
  also have "\<dots> = ?r + push_bit off (take_bit 4 (?c + 1))"
    by (simp only: c)
  also have "\<dots> = ?r OR push_bit off (take_bit 4 (?c + 1))"
    by (rule disjunctive_add_eq_or, rule bit_eqI) (auto simp add: bit_simps)
  finally show ?thesis .
qed

lemma counter_at_increment:
  fixes w :: "64 word"
  assumes "a < 16" "b < 16" "counter_at w (4 * a) \<noteq> 15"
  shows "counter_at (w + push_bit (4 * a) 1) (4 * b) =
           (if a = b then counter_at w (4 * a) + 1 else counter_at w (4 * b))"
proof (cases "a = b")
  case True
  have c: "take_bit 4 (counter_at w (4 * a) + 1) = counter_at w (4 * a) + 1"
    using assms by (intro succ_small) (simp_all add: counter_at_mask)
  have "counter_at (w + push_bit (4 * a) 1) (4 * a) = take_bit 4 (counter_at w (4 * a) + 1)"
    unfolding increment_block [OF assms(3)]
    unfolding counter_at_mask
    using assms(1)
    by (intro bit_eqI) (auto simp add: bit_simps)
  with True c show ?thesis by simp
next
  case False
  have "counter_at (w + push_bit (4 * a) 1) (4 * b) = counter_at w (4 * b)"
    unfolding increment_block [OF assms(3)]
    unfolding counter_at_mask
    using False assms(1,2)
    by (intro bit_eqI) (auto simp add: bit_simps)
  with False show ?thesis by simp
qed

lemma and_shifted_mask:
  fixes w :: "64 word"
  shows "w AND push_bit off (mask 4) = push_bit off (counter_at w off)"
  unfolding counter_at_mask by (rule bit_eqI) (auto simp add: bit_simps)

lemma drop_push_small:
  fixes x :: "64 word"
  assumes "off \<le> 60"
  shows "drop_bit off (push_bit off (take_bit 4 x)) = take_bit 4 x"
  using assms by (intro bit_eqI) (auto simp add: bit_simps)

lemma can_increment_counter_iff:
  assumes "off \<le> 60"
  shows "can_increment_counter tbl idx off \<longleftrightarrow> counter_at (tbl ! nat idx) off \<noteq> 15"
proof -
  let ?w = "tbl ! nat idx"
  have m: "drop_bit off (push_bit off (mask 4 :: 64 word)) = mask 4"
    using drop_push_small [OF assms, of "mask 4"] by simp
  have c: "drop_bit off (push_bit off (counter_at ?w off)) = counter_at ?w off"
    using drop_push_small [OF assms, of "drop_bit off ?w"] by (simp add: counter_at_mask)
  have "push_bit off (counter_at ?w off) = push_bit off (mask 4) \<longleftrightarrow> counter_at ?w off = mask 4"
    using m c by metis
  then show ?thesis
    by (simp add: can_increment_counter_def Let_def f_mask and_shifted_mask)
qed

subsection \<open>The mask of the aging pass\<close>

lemma bit_7_16: "bit (7 + 16 * x :: int) n \<longleftrightarrow> (if n < 4 then n < 3 else bit x (n - 4))"
proof -
  have "(7::int) = mask 3" by (simp add: mask_eq_exp_minus_1)
  moreover have "16 * x = push_bit 4 x" by (simp add: push_bit_eq_mult)
  moreover have "mask 3 + push_bit 4 x = mask 3 OR push_bit 4 x"
    by (rule disjunctive_add_eq_or, rule bit_eqI) (simp add: bit_simps)
  ultimately have "7 + 16 * x = mask 3 OR push_bit 4 x" by simp
  then show ?thesis by (auto simp add: bit_simps)
qed

lemma bit_sevens: "bit (sevens k) n \<longleftrightarrow> n < 4 * k \<and> n mod 4 \<noteq> 3"
proof (induction k arbitrary: n)
  case 0
  then show ?case by simp
next
  case (Suc k)
  show ?case
  proof (cases "n < 4")
    case True
    then show ?thesis by (auto simp add: bit_7_16)
  next
    case False
    then have "(n - 4) mod 4 = n mod 4"
      by (simp add: le_mod_geq)
    with False show ?thesis unfolding sevens.simps bit_7_16 Suc.IH by auto
  qed
qed

lemma sevens_16: "(0x7777777777777777 :: int) = sevens 16"
  by (simp add: numeral_eq_Suc)

lemma bit_halve_mask: "bit (0x7777777777777777 :: int) n \<longleftrightarrow> n < 64 \<and> n mod 4 \<noteq> 3"
  unfolding sevens_16 bit_sevens by simp

lemma counter_at_halve:
  assumes "j < 16"
  shows "counter_at (halve w) (4 * j) = drop_bit 1 (counter_at w (4 * j))"
  unfolding counter_at_mask halve_def
  using assms by (intro bit_eqI) (auto simp add: bit_simps bit_halve_mask)

subsection \<open>Reading counters\<close>

lemma get_count_unat:
  "get_count tbl hash i =
     int (unat (counter_at (tbl ! nat (get_table_index tbl hash i)) (get_counter_offset hash i)))"
  by (simp only: get_count_def Let_def to_int_counter_at)

lemma get_count_range: "0 \<le> get_count tbl hash i \<and> get_count tbl hash i \<le> 15"
  using unat_counter_at_less [of "tbl ! nat (get_table_index tbl hash i)" "get_counter_offset hash i"]
  unfolding get_count_unat by linarith

lemma int_max: "uint (drop_bit 1 (- 1 :: 32 word)) = 2147483647"
  by (simp add: drop_bit_eq_div uint_div_distrib)

lemma get_frequency_eq:
  "get_frequency get_hash s e =
     min (min (min (get_count (m_table s) (get_hash e) 0) (get_count (m_table s) (get_hash e) 1))
              (get_count (m_table s) (get_hash e) 2))
         (get_count (m_table s) (get_hash e) 3)"
  using get_count_range [of "m_table s" "get_hash e" 0]
  unfolding get_frequency_def Let_def int_max by simp

lemma length_resize: "length (resize v n) = n"
  by (simp add: resize_def)

lemma resize_Nil: "resize [] n = replicate n 0"
  by (simp add: resize_def)

subsection \<open>The effect of one increment\<close>

lemma get_counter_offset_le: "i < 4 \<Longrightarrow> get_counter_offset hash i \<le> 60"
  using unat_and_3 [of hash] by (simp add: get_counter_offset_eq)

lemma get_table_index_length:
  "length tbl' = length tbl \<Longrightarrow> get_table_index tbl' hash i = get_table_index tbl hash i"
  by (simp add: get_table_index_def)

lemma table_ok_length: "length tbl' = length tbl \<Longrightarrow> table_ok tbl' = table_ok tbl"
  by (simp add: table_ok_def)

lemma nat_index_less:
  assumes "table_ok tbl"
  shows "nat (get_table_index tbl hash i) < length tbl"
  using get_table_index_range [OF assms, of hash i] by linarith

lemma length_try_increment_at [simp]:
  "length (fst (try_increment_at tbl hash i)) = length tbl"
  by (simp add: try_increment_at_def Let_def)

lemma snd_try_increment_at:
  assumes "i < 4"
  shows "snd (try_increment_at tbl hash i) \<longleftrightarrow>
         counter_at (tbl ! nat (get_table_index tbl hash i)) (get_counter_offset hash i) \<noteq> 15"
  using get_counter_offset_le [OF assms, of hash]
  by (simp add: try_increment_at_def Let_def can_increment_counter_iff)

lemma get_counter_offset_cases:
  assumes "i < 4"
  obtains a where "a < 16" "get_counter_offset hash i = 4 * a"
proof
  show "4 * unat (hash AND 3) + i < 16"
    using unat_and_3 [of hash] assms by simp
  show "get_counter_offset hash i = 4 * (4 * unat (hash AND 3) + i)"
    by (rule get_counter_offset_eq)
qed

lemma counter_at_try_increment_at:
  assumes ok: "table_ok tbl" and i: "i < 4" and p: "p < length tbl" and j: "j < 16"
  shows "counter_at (fst (try_increment_at tbl hash i) ! p) (4 * j) =
           (if p = nat (get_table_index tbl hash i) \<and> 4 * j = get_counter_offset hash i
               \<and> counter_at (tbl ! p) (4 * j) \<noteq> 15
            then counter_at (tbl ! p) (4 * j) + 1
            else counter_at (tbl ! p) (4 * j))"
proof -
  define idx where "idx = nat (get_table_index tbl hash i)"
  define w where "w = tbl ! idx"
  from i obtain a where a: "a < 16" and off: "get_counter_offset hash i = 4 * a"
    by (rule get_counter_offset_cases)
  have idx: "idx < length tbl" unfolding idx_def using ok by (rule nat_index_less)
  have snd: "snd (try_increment_at tbl hash i) \<longleftrightarrow> counter_at w (4 * a) \<noteq> 15"
    using snd_try_increment_at [OF i, of tbl hash] by (simp add: off w_def idx_def)
  show ?thesis
  proof (cases "counter_at w (4 * a) = 15")
    case True
    with snd have "fst (try_increment_at tbl hash i) = tbl"
      by (simp add: try_increment_at_def Let_def split: if_splits)
    with True show ?thesis
      by (auto simp add: off w_def idx_def)
  next
    case False
    with snd have upd: "fst (try_increment_at tbl hash i) = tbl[idx := w + push_bit (4 * a) 1]"
      by (simp add: try_increment_at_def Let_def off w_def idx_def split: if_splits)
    show ?thesis
    proof (cases "p = idx")
      case True
      then have "fst (try_increment_at tbl hash i) ! p = w + push_bit (4 * a) 1"
        using idx by (simp add: upd)
      then have "counter_at (fst (try_increment_at tbl hash i) ! p) (4 * j) =
                   (if a = j then counter_at w (4 * a) + 1 else counter_at w (4 * j))"
        using counter_at_increment [OF a j False] by simp
      with True False show ?thesis
        by (auto simp add: off w_def idx_def)
    next
      case False
      then have "fst (try_increment_at tbl hash i) ! p = tbl ! p"
        by (simp add: upd)
      with False show ?thesis by (simp add: idx_def)
    qed
  qed
qed

lemma slot_try_increment_at:
  assumes "p \<noteq> nat (get_table_index tbl hash i)"
  shows "fst (try_increment_at tbl hash i) ! p = tbl ! p"
  using assms by (simp add: try_increment_at_def Let_def)

lemma int_unat_eq_15: "int (unat c) = 15 \<longleftrightarrow> c = (15 :: 64 word)"
proof -
  have "int n = 15 \<longleftrightarrow> n = 15" for n :: nat by linarith
  moreover have "unat (15 :: 64 word) = 15" by simp
  ultimately show ?thesis by (simp only: word_unat_eq_iff)
qed

lemma unat_counter_at_succ:
  assumes "counter_at w off \<noteq> 15"
  shows "unat (counter_at w off + 1) = unat (counter_at w off) + 1"
  using assms by (intro succ_small(2)) (simp_all add: counter_at_mask)

lemma get_count_try_increment_at:
  assumes ok: "table_ok tbl" and i: "i < 4" and i': "i' < 4"
  shows "get_count (fst (try_increment_at tbl hash i)) hash' i' =
           (if nat (get_table_index tbl hash' i') = nat (get_table_index tbl hash i)
               \<and> get_counter_offset hash' i' = get_counter_offset hash i
               \<and> get_count tbl hash' i' \<noteq> 15
            then get_count tbl hash' i' + 1
            else get_count tbl hash' i')"
proof -
  define p where "p = nat (get_table_index tbl hash' i')"
  from i' obtain a where a: "a < 16" and off: "get_counter_offset hash' i' = 4 * a"
    by (rule get_counter_offset_cases)
  have p: "p < length tbl" unfolding p_def using ok by (rule nat_index_less)
  have idx: "get_table_index (fst (try_increment_at tbl hash i)) hash' i' = get_table_index tbl hash' i'"
    by (rule get_table_index_length) simp
  have new: "get_count (fst (try_increment_at tbl hash i)) hash' i' =
      int (unat (counter_at (fst (try_increment_at tbl hash i) ! p) (4 * a)))"
    by (simp only: get_count_unat idx off p_def)
  have old: "get_count tbl hash' i' = int (unat (counter_at (tbl ! p) (4 * a)))"
    by (simp only: get_count_unat off p_def)
  have sat: "get_count tbl hash' i' \<noteq> 15 \<longleftrightarrow> counter_at (tbl ! p) (4 * a) \<noteq> 15"
    unfolding old by (simp only: int_unat_eq_15)
  let ?C = "p = nat (get_table_index tbl hash i) \<and> 4 * a = get_counter_offset hash i
      \<and> counter_at (tbl ! p) (4 * a) \<noteq> 15"
  note E = counter_at_try_increment_at [OF ok i p a, of hash]
  show ?thesis
  proof (cases ?C)
    case True
    have "counter_at (fst (try_increment_at tbl hash i) ! p) (4 * a) = counter_at (tbl ! p) (4 * a) + 1"
      by (rule trans [OF E if_P [OF True]])
    moreover have "int (unat (counter_at (tbl ! p) (4 * a) + 1)) = int (unat (counter_at (tbl ! p) (4 * a))) + 1"
    proof -
      from True have "counter_at (tbl ! p) (4 * a) \<noteq> 15" by blast
      then have "unat (counter_at (tbl ! p) (4 * a) + 1) = unat (counter_at (tbl ! p) (4 * a)) + 1"
        by (rule unat_counter_at_succ)
      then show ?thesis by (simp only: of_nat_add of_nat_1)
    qed
    ultimately have g: "get_count (fst (try_increment_at tbl hash i)) hash' i' = get_count tbl hash' i' + 1"
      by (simp only: new old)
    have c: "nat (get_table_index tbl hash' i') = nat (get_table_index tbl hash i)
               \<and> get_counter_offset hash' i' = get_counter_offset hash i
               \<and> get_count tbl hash' i' \<noteq> 15"
      using True unfolding sat off p_def by blast
    show ?thesis unfolding if_P [OF c] by (rule g)
  next
    case False
    have "counter_at (fst (try_increment_at tbl hash i) ! p) (4 * a) = counter_at (tbl ! p) (4 * a)"
      by (rule trans [OF E if_not_P [OF False]])
    then have g: "get_count (fst (try_increment_at tbl hash i)) hash' i' = get_count tbl hash' i'"
      by (simp only: new old)
    have c: "\<not> (nat (get_table_index tbl hash' i') = nat (get_table_index tbl hash i)
               \<and> get_counter_offset hash' i' = get_counter_offset hash i
               \<and> get_count tbl hash' i' \<noteq> 15)"
      using False unfolding sat off p_def by blast
    show ?thesis unfolding if_not_P [OF c] by (rule g)
  qed
qed

lemma get_count_try_increment_at_same:
  assumes ok: "table_ok tbl" and i: "i < 4"
  shows "get_count (fst (try_increment_at tbl hash i)) hash i =
           (if get_count tbl hash i \<noteq> 15 then get_count tbl hash i + 1 else get_count tbl hash i)"
  by (simp add: get_count_try_increment_at [OF ok i i])

lemma get_count_try_increment_at_other:
  assumes ok: "table_ok tbl" and i: "i < 4" and i': "i' < 4" and ne: "i' \<noteq> i"
  shows "get_count (fst (try_increment_at tbl hash i)) hash i' = get_count tbl hash i'"
proof -
  have "get_counter_offset hash i' \<noteq> get_counter_offset hash i"
    using ne by (simp add: get_counter_offset_eq)
  then show ?thesis
    by (simp add: get_count_try_increment_at [OF ok i i'])
qed

lemma get_count_try_increment_at_mono:
  assumes ok: "table_ok tbl" and i: "i < 4" and i': "i' < 4"
  shows "get_count tbl hash' i' \<le> get_count (fst (try_increment_at tbl hash i)) hash' i'"
  by (simp add: get_count_try_increment_at [OF ok i i'])

lemma snd_try_increment_at_count:
  assumes "i < 4"
  shows "snd (try_increment_at tbl hash i) \<longleftrightarrow> get_count tbl hash i \<noteq> 15"
  unfolding snd_try_increment_at [OF assms] get_count_unat
  by (simp only: int_unat_eq_15)

lemma increment_all_steps:
  "increment_all tbl hash =
     (let r0 = try_increment_at tbl hash 0;
          r1 = try_increment_at (fst r0) hash 1;
          r2 = try_increment_at (fst r1) hash 2;
          r3 = try_increment_at (fst r2) hash 3
      in (fst r3, snd r0 \<or> snd r1 \<or> snd r2 \<or> snd r3))"
  by (simp add: increment_all_def Let_def split_def)

lemma length_increment_all [simp]: "length (fst (increment_all tbl hash)) = length tbl"
  by (simp add: increment_all_steps Let_def)

subsection \<open>The loop of four increments\<close>

lemma table_ok_try_increment_at [simp]:
  "table_ok (fst (try_increment_at tbl hash i)) = table_ok tbl"
  by (rule table_ok_length) simp

lemma table_ok_increment_all [simp]:
  "table_ok (fst (increment_all tbl hash)) = table_ok tbl"
  by (rule table_ok_length) simp

lemma less_4_cases:
  assumes "i < (4 :: nat)"
  obtains "i = 0" | "i = 1" | "i = 2" | "i = 3"
  using assms by linarith

lemma get_count_increment_all_same:
  assumes ok: "table_ok tbl" and i: "i < 4"
  shows "get_count (fst (increment_all tbl hash)) hash i =
           (if get_count tbl hash i \<noteq> 15 then get_count tbl hash i + 1 else get_count tbl hash i)"
  using i
proof (cases i rule: less_4_cases)
  case 1
  then show ?thesis
    by (simp add: increment_all_steps Let_def ok
        get_count_try_increment_at_same get_count_try_increment_at_other del: One_nat_def)
next
  case 2
  then show ?thesis
    by (simp add: increment_all_steps Let_def ok
        get_count_try_increment_at_same get_count_try_increment_at_other del: One_nat_def)
next
  case 3
  then show ?thesis
    by (simp add: increment_all_steps Let_def ok
        get_count_try_increment_at_same get_count_try_increment_at_other del: One_nat_def)
next
  case 4
  then show ?thesis
    by (simp add: increment_all_steps Let_def ok
        get_count_try_increment_at_same get_count_try_increment_at_other del: One_nat_def)
qed

lemma snd_increment_all:
  assumes ok: "table_ok tbl"
  shows "snd (increment_all tbl hash) \<longleftrightarrow>
         get_count tbl hash 0 \<noteq> 15 \<or> get_count tbl hash 1 \<noteq> 15
         \<or> get_count tbl hash 2 \<noteq> 15 \<or> get_count tbl hash 3 \<noteq> 15"
  by (simp add: increment_all_steps Let_def ok snd_try_increment_at_count
      get_count_try_increment_at_other del: One_nat_def)

lemma get_count_increment_all_mono:
  assumes ok: "table_ok tbl" and i': "i' < 4"
  shows "get_count tbl hash' i' \<le> get_count (fst (increment_all tbl hash)) hash' i'"
proof -
  define t1 where "t1 = fst (try_increment_at tbl hash 0)"
  define t2 where "t2 = fst (try_increment_at t1 hash 1)"
  define t3 where "t3 = fst (try_increment_at t2 hash 2)"
  define t4 where "t4 = fst (try_increment_at t3 hash 3)"
  have ok1: "table_ok t1" and ok2: "table_ok t2" and ok3: "table_ok t3"
    by (simp_all add: t1_def t2_def t3_def ok)
  have "get_count tbl hash' i' \<le> get_count t1 hash' i'"
    unfolding t1_def by (rule get_count_try_increment_at_mono [OF ok _ i']) simp
  also have "\<dots> \<le> get_count t2 hash' i'"
    unfolding t2_def by (rule get_count_try_increment_at_mono [OF ok1 _ i']) simp
  also have "\<dots> \<le> get_count t3 hash' i'"
    unfolding t3_def by (rule get_count_try_increment_at_mono [OF ok2 _ i']) simp
  also have "\<dots> \<le> get_count t4 hash' i'"
    unfolding t4_def by (rule get_count_try_increment_at_mono [OF ok3 _ i']) simp
  also have "t4 = fst (increment_all tbl hash)"
    by (simp add: increment_all_steps Let_def t1_def t2_def t3_def t4_def)
  finally show ?thesis .
qed

lemma try_increment_at_unchanged:
  "\<not> snd (try_increment_at tbl hash i) \<Longrightarrow> fst (try_increment_at tbl hash i) = tbl"
  by (simp add: try_increment_at_def Let_def split: if_splits)

lemma increment_all_unchanged:
  assumes "\<not> snd (increment_all tbl hash)"
  shows "fst (increment_all tbl hash) = tbl"
proof -
  from assms have 0: "\<not> snd (try_increment_at tbl hash 0)"
    by (simp add: increment_all_steps Let_def)
  then have t0: "fst (try_increment_at tbl hash 0) = tbl"
    by (rule try_increment_at_unchanged)
  from assms have 1: "\<not> snd (try_increment_at tbl hash 1)"
    by (simp add: increment_all_steps Let_def t0 del: One_nat_def)
  then have t1: "fst (try_increment_at tbl hash 1) = tbl"
    by (rule try_increment_at_unchanged)
  from assms have 2: "\<not> snd (try_increment_at tbl hash 2)"
    by (simp add: increment_all_steps Let_def t0 t1 del: One_nat_def)
  then have t2: "fst (try_increment_at tbl hash 2) = tbl"
    by (rule try_increment_at_unchanged)
  from assms have 3: "\<not> snd (try_increment_at tbl hash 3)"
    by (simp add: increment_all_steps Let_def t0 t1 t2 del: One_nat_def)
  then have t3: "fst (try_increment_at tbl hash 3) = tbl"
    by (rule try_increment_at_unchanged)
  show ?thesis
    by (simp add: increment_all_steps Let_def t0 t1 t2 t3 del: One_nat_def)
qed

subsection \<open>The shape of \<^verbatim>\<open>record_access\<close>\<close>

lemma get_sampling_size_length:
  "length (m_table s') = length (m_table s) \<Longrightarrow> get_sampling_size s' = get_sampling_size s"
  by (simp add: get_sampling_size_def)

lemma record_access_cases:
  "record_access get_hash s t =
     (if was_added get_hash s t
      then (if aging_triggers get_hash s t
            then reset (s\<lparr>m_table := fst (increment_all (m_table s) (get_hash t)),
                          m_size := wrap_int (m_size s + 1)\<rparr>)
            else s\<lparr>m_table := fst (increment_all (m_table s) (get_hash t)),
                   m_size := wrap_int (m_size s + 1)\<rparr>)
      else s)"
proof (cases "was_added get_hash s t")
  case True
  have "get_sampling_size (s\<lparr>m_table := fst (increment_all (m_table s) (get_hash t)),
                          m_size := wrap_int (m_size s + 1)\<rparr>) = get_sampling_size s"
    by (rule get_sampling_size_length) simp
  with True show ?thesis
    by (simp add: record_access_def Let_def split_def was_added_def aging_triggers_def)
next
  case False
  then have "fst (increment_all (m_table s) (get_hash t)) = m_table s"
    unfolding was_added_def by (rule increment_all_unchanged)
  with False show ?thesis
    by (simp add: record_access_def Let_def split_def was_added_def)
qed

lemma aging_triggers_was_added: "aging_triggers get_hash s t \<Longrightarrow> was_added get_hash s t"
  by (simp add: aging_triggers_def was_added_def)

lemma m_table_record_access:
  "m_table (record_access get_hash s t) =
     (if aging_triggers get_hash s t
      then map halve (fst (increment_all (m_table s) (get_hash t)))
      else fst (increment_all (m_table s) (get_hash t)))"
proof (cases "was_added get_hash s t")
  case True
  then show ?thesis by (simp add: record_access_cases reset_def)
next
  case False
  then have "fst (increment_all (m_table s) (get_hash t)) = m_table s"
    unfolding was_added_def by (rule increment_all_unchanged)
  with False aging_triggers_was_added [of get_hash s t] show ?thesis
    by (auto simp add: record_access_cases)
qed

lemma length_m_table_record_access [simp]:
  "length (m_table (record_access get_hash s t)) = length (m_table s)"
  by (simp add: m_table_record_access)

lemma table_ok_record_access [simp]:
  "table_ok (m_table (record_access get_hash s t)) = table_ok (m_table s)"
  by (rule table_ok_length) simp

subsection \<open>Well-formed tables\<close>

lemma table_okI: "k \<le> 31 \<Longrightarrow> length tbl = 2 ^ k \<Longrightarrow> table_ok tbl"
  by (auto simp add: table_ok_def)

lemma table_ok_single: "table_ok [w]"
  by (rule table_okI [of 0]) simp_all

subsection \<open>Elements that do not collide\<close>

lemma get_count_try_increment_at_apart:
  assumes ok: "table_ok tbl" and i: "i < 4" and i': "i' < 4"
    and apart: "\<not> collides tbl hash hash'"
  shows "get_count (fst (try_increment_at tbl hash i)) hash' i' = get_count tbl hash' i'"
proof -
  from apart i i' have "get_table_index tbl hash i \<noteq> get_table_index tbl hash' i'
      \<or> get_counter_offset hash i \<noteq> get_counter_offset hash' i'"
    by (auto simp add: collides_def)
  moreover have "0 \<le> get_table_index tbl hash i" "0 \<le> get_table_index tbl hash' i'"
    using get_table_index_range [OF ok] by simp_all
  ultimately have "nat (get_table_index tbl hash' i') \<noteq> nat (get_table_index tbl hash i)
      \<or> get_counter_offset hash' i' \<noteq> get_counter_offset hash i"
    by auto
  then show ?thesis
    by (auto simp add: get_count_try_increment_at [OF ok i i'])
qed

lemma collides_length:
  "length tbl' = length tbl \<Longrightarrow> collides tbl' hash hash' = collides tbl hash hash'"
  by (simp add: collides_def get_table_index_def)

lemma collides_try_increment_at [simp]:
  "collides (fst (try_increment_at tbl h i)) hash hash' = collides tbl hash hash'"
  by (rule collides_length) simp

lemma get_count_increment_all_apart:
  assumes ok: "table_ok tbl" and i': "i' < 4" and apart: "\<not> collides tbl hash hash'"
  shows "get_count (fst (increment_all tbl hash)) hash' i' = get_count tbl hash' i'"
proof -
  define t1 where "t1 = fst (try_increment_at tbl hash 0)"
  define t2 where "t2 = fst (try_increment_at t1 hash 1)"
  define t3 where "t3 = fst (try_increment_at t2 hash 2)"
  define t4 where "t4 = fst (try_increment_at t3 hash 3)"
  have ok1: "table_ok t1" and ok2: "table_ok t2" and ok3: "table_ok t3"
    by (simp_all add: t1_def t2_def t3_def ok)
  have a1: "\<not> collides t1 hash hash'" and a2: "\<not> collides t2 hash hash'"
    and a3: "\<not> collides t3 hash hash'"
    using apart by (simp_all add: t1_def t2_def t3_def)
  have "t4 = fst (increment_all tbl hash)"
    by (simp add: increment_all_steps Let_def t1_def t2_def t3_def t4_def)
  then have "get_count (fst (increment_all tbl hash)) hash' i' = get_count t4 hash' i'"
    by simp
  also have "\<dots> = get_count t3 hash' i'"
    unfolding t4_def by (rule get_count_try_increment_at_apart [OF ok3 _ i' a3]) simp
  also have "\<dots> = get_count t2 hash' i'"
    unfolding t3_def by (rule get_count_try_increment_at_apart [OF ok2 _ i' a2]) simp
  also have "\<dots> = get_count t1 hash' i'"
    unfolding t2_def by (rule get_count_try_increment_at_apart [OF ok1 _ i' a1]) simp
  also have "\<dots> = get_count tbl hash' i'"
    unfolding t1_def by (rule get_count_try_increment_at_apart [OF ok _ i' apart]) simp
  finally show ?thesis .
qed

lemma record_all_counts:
  assumes "table_ok (m_table s)"
    and "\<forall>i<4. get_count (m_table s) (get_hash e) i = int j"
    and "j + count_list ts e \<le> 15"
    and "no_aging get_hash s ts"
    and "\<forall>t\<in>set ts. t = e \<or> \<not> collides (m_table s) (get_hash t) (get_hash e)"
  shows "\<forall>i<4. get_count (m_table (record_all get_hash s ts)) (get_hash e) i
           = int (j + count_list ts e)"
  using assms
proof (induction ts arbitrary: s j)
  case Nil
  then show ?case by simp
next
  case (Cons t ts)
  define s' where "s' = record_access get_hash s t"
  from Cons.prems(4) have no: "\<not> aging_triggers get_hash s t" and rest: "no_aging get_hash s' ts"
    by (simp_all add: s'_def)
  have tbl: "m_table s' = fst (increment_all (m_table s) (get_hash t))"
    using no by (simp add: m_table_record_access s'_def)
  have ok: "table_ok (m_table s')" using Cons.prems(1) by (simp add: s'_def)
  have len: "length (m_table s') = length (m_table s)" by (simp add: s'_def)
  have apart: "\<forall>t'\<in>set ts. t' = e \<or> \<not> collides (m_table s') (get_hash t') (get_hash e)"
  proof
    fix t' assume "t' \<in> set ts"
    with Cons.prems(5) have "t' = e \<or> \<not> collides (m_table s) (get_hash t') (get_hash e)"
      by simp
    then show "t' = e \<or> \<not> collides (m_table s') (get_hash t') (get_hash e)"
      by (simp only: collides_length [OF len])
  qed
  have step: "record_all get_hash s (t # ts) = record_all get_hash s' ts"
    by (simp add: s'_def)
  show ?case
  proof (cases "t = e")
    case True
    from Cons.prems(3) True have j: "j < 15" and le: "Suc j + count_list ts e \<le> 15"
      by simp_all
    have cnt: "count_list (t # ts) e = Suc (count_list ts e)" using True by simp
    have "\<forall>i<4. get_count (m_table s') (get_hash e) i = int (Suc j)"
    proof (intro allI impI)
      fix i :: nat assume i: "i < 4"
      with Cons.prems(2) have old: "get_count (m_table s) (get_hash e) i = int j" by blast
      have "get_count (m_table s') (get_hash e) i =
          (if get_count (m_table s) (get_hash e) i \<noteq> 15
           then get_count (m_table s) (get_hash e) i + 1
           else get_count (m_table s) (get_hash e) i)"
        unfolding tbl True by (rule get_count_increment_all_same [OF Cons.prems(1) i])
      with old j show "get_count (m_table s') (get_hash e) i = int (Suc j)" by simp
    qed
    from Cons.IH [OF ok this le rest apart] show ?thesis
      unfolding step cnt by simp
  next
    case False
    have cnt: "count_list (t # ts) e = count_list ts e" using False by simp
    from False Cons.prems(5) have ap: "\<not> collides (m_table s) (get_hash t) (get_hash e)" by simp
    have same: "\<forall>i<4. get_count (m_table s') (get_hash e) i = int j"
    proof (intro allI impI)
      fix i :: nat assume i: "i < 4"
      with Cons.prems(2) have old: "get_count (m_table s) (get_hash e) i = int j" by blast
      have "get_count (m_table s') (get_hash e) i = get_count (m_table s) (get_hash e) i"
        unfolding tbl by (rule get_count_increment_all_apart [OF Cons.prems(1) i ap])
      with old show "get_count (m_table s') (get_hash e) i = int j" by simp
    qed
    from Cons.prems(3) have le: "j + count_list ts e \<le> 15" unfolding cnt .
    from Cons.IH [OF ok same le rest apart] show ?thesis
      unfolding step cnt .
  qed
qed

lemma counter_at_zero: "counter_at 0 off = 0"
  by (simp add: counter_at_def)

lemma get_count_zero_table:
  assumes "table_ok (replicate n 0)"
  shows "get_count (replicate n 0) hash i = 0"
proof -
  have "nat (get_table_index (replicate n 0) hash i) < n"
    using nat_index_less [OF assms, of hash i] by simp
  then show ?thesis
    unfolding get_count_unat by (simp add: counter_at_zero)
qed

lemma table_ok_nearest:
  assumes "0 < capacity" "capacity < 2 ^ 31"
  shows "table_ok (replicate (get_nearest_power_of_two (nat capacity)) 0)"
proof (rule table_okI)
  have "nat capacity - 1 < 2 ^ 31" using assms by (simp add: nat_less_iff)
  then show "bit_length (nat capacity - 1) \<le> 31" by (rule bit_length_le)
  show "length (replicate (get_nearest_power_of_two (nat capacity)) (0 :: uint64_t))
      = 2 ^ bit_length (nat capacity - 1)"
    by (simp add: get_nearest_power_of_two_def)
qed

lemma FrequencySketch_ctor_Inr:
  assumes "FrequencySketch_ctor u capacity = Inr s"
  shows "0 < capacity"
    and "s = \<lparr>m_table = replicate (get_nearest_power_of_two (nat capacity)) 0, m_size = 0\<rparr>"
  using assms
  by (auto simp add: FrequencySketch_ctor_def change_capacity_def resize_Nil split: if_splits)

subsection \<open>The tally\<close>










lemma table_ok_record_all [simp]:
  "table_ok (m_table (record_all get_hash s ts)) = table_ok (m_table s)"
  by (induction ts arbitrary: s) simp_all



subsection \<open>Halved tables, repeated accesses, saturation\<close>

lemma get_count_map_halve:
  assumes ok: "table_ok tbl" and i: "i < 4"
  shows "get_count (map halve tbl) hash i = get_count tbl hash i div 2"
proof -
  define p where "p = nat (get_table_index tbl hash i)"
  from i obtain a where a: "a < 16" and off: "get_counter_offset hash i = 4 * a"
    by (rule get_counter_offset_cases)
  have p: "p < length tbl" unfolding p_def using ok by (rule nat_index_less)
  have idx: "get_table_index (map halve tbl) hash i = get_table_index tbl hash i"
    by (rule get_table_index_length) simp
  have "get_count (map halve tbl) hash i = int (unat (counter_at (halve (tbl ! p)) (4 * a)))"
    using p by (simp only: get_count_unat idx off p_def nth_map)
  also have "\<dots> = int (unat (counter_at (tbl ! p) (4 * a)) div 2)"
    by (simp only: counter_at_halve [OF a] drop_bit_eq_div unat_div) simp
  also have "\<dots> = get_count tbl hash i div 2"
    by (simp only: get_count_unat off p_def zdiv_int) simp
  finally show ?thesis .
qed

lemma get_table_index_mod:
  assumes ok: "table_ok tbl"
  shows "nat (get_table_index tbl hash i) =
         unat (SEEDS ! i * ucast hash + drop_bit 32 (SEEDS ! i * ucast hash)) mod length tbl"
proof -
  from ok obtain k where k: "k \<le> 31" "length tbl = 2 ^ k"
    by (auto simp add: table_ok_def)
  have "(of_nat (length tbl) - 1 :: 64 word) = mask k"
    by (simp add: k mask_eq_exp_minus_1)
  then have "get_table_index tbl hash i =
      uint (take_bit k (SEEDS ! i * ucast hash + drop_bit 32 (SEEDS ! i * ucast hash)))"
    by (simp add: get_table_index_def Let_def to_int_take_bit k flip: take_bit_eq_mask)
  then have "nat (get_table_index tbl hash i) =
      unat (take_bit k (SEEDS ! i * ucast hash + drop_bit 32 (SEEDS ! i * ucast hash)))"
    by simp
  also have "\<dots> = take_bit k (unat (SEEDS ! i * ucast hash + drop_bit 32 (SEEDS ! i * ucast hash)))"
    by (simp only: unsigned_take_bit_eq)
  also have "\<dots> = unat (SEEDS ! i * ucast hash + drop_bit 32 (SEEDS ! i * ucast hash)) mod 2 ^ k"
    by (rule take_bit_eq_mod)
  finally show ?thesis by (simp add: k)
qed

lemma min15_step:
  fixes c :: int
  assumes "0 \<le> c" "c \<le> 15"
  shows "(if c \<noteq> 15 then c + 1 else c) = min 15 (c + 1)"
  using assms by (simp add: min_def)

lemma record_all_replicate_counts:
  assumes "table_ok (m_table s)" and "i < 4" and "no_aging get_hash s (replicate n e)"
  shows "get_count (m_table (record_all get_hash s (replicate n e))) (get_hash e) i
           = min 15 (get_count (m_table s) (get_hash e) i + int n)"
  using assms
proof (induction n arbitrary: s)
  case 0
  then show ?case
    using get_count_range [of "m_table s" "get_hash e" i] by simp
next
  case (Suc n)
  define s' where "s' = record_access get_hash s e"
  from Suc.prems(3) have no: "\<not> aging_triggers get_hash s e"
    and rest: "no_aging get_hash s' (replicate n e)"
    by (simp_all add: s'_def)
  have tbl: "m_table s' = fst (increment_all (m_table s) (get_hash e))"
    using no by (simp add: m_table_record_access s'_def)
  have ok: "table_ok (m_table s')" using Suc.prems(1) by (simp add: s'_def)
  note r = get_count_range [of "m_table s" "get_hash e" i]
  have c: "get_count (m_table s') (get_hash e) i = min 15 (get_count (m_table s) (get_hash e) i + 1)"
    unfolding tbl get_count_increment_all_same [OF Suc.prems(1,2)]
    using r by (intro min15_step) simp_all
  have "get_count (m_table (record_all get_hash s (replicate (Suc n) e))) (get_hash e) i
      = get_count (m_table (record_all get_hash s' (replicate n e))) (get_hash e) i"
    by (simp add: s'_def)
  also have "\<dots> = min 15 (get_count (m_table s') (get_hash e) i + int n)"
    by (rule Suc.IH [OF ok Suc.prems(2) rest])
  also have "\<dots> = min 15 (get_count (m_table s) (get_hash e) i + int (Suc n))"
    unfolding c using r by (simp add: min_def)
  finally show ?case .
qed

lemma get_frequency_record_all_replicate:
  assumes ok: "table_ok (m_table s)" and no: "no_aging get_hash s (replicate n e)"
  shows "get_frequency get_hash (record_all get_hash s (replicate n e)) e
           = min 15 (get_frequency get_hash s e + int n)"
  unfolding get_frequency_eq
  using record_all_replicate_counts [OF ok _ no, of 0]
    record_all_replicate_counts [OF ok _ no, of 1]
    record_all_replicate_counts [OF ok _ no, of 2]
    record_all_replicate_counts [OF ok _ no, of 3]
  by (simp add: min_def)

lemma saturated_record_access:
  assumes ok: "table_ok (m_table s)" and sat: "get_frequency get_hash s e = 15"
  shows "record_access get_hash s e = s"
proof -
  note r = get_count_range [of "m_table s" "get_hash e"]
  from sat r [of 0] r [of 1] r [of 2] r [of 3]
  have "get_count (m_table s) (get_hash e) 0 = 15" "get_count (m_table s) (get_hash e) 1 = 15"
    "get_count (m_table s) (get_hash e) 2 = 15" "get_count (m_table s) (get_hash e) 3 = 15"
    unfolding get_frequency_eq by (simp_all add: min_def split: if_splits)
  then have "\<not> was_added get_hash s e"
    unfolding was_added_def snd_increment_all [OF ok] by simp
  then show ?thesis by (simp add: record_access_cases)
qed

lemma get_count_uint:
  "get_count tbl hash i =
     uint (counter_at (tbl ! nat (get_table_index tbl hash i)) (get_counter_offset hash i))"
  unfolding get_count_unat by simp

section \<open>The claims\<close>

subsection \<open>C3: the frequency estimate\<close>

text \<open>
  C3. For every sketch state and every element \<open>e\<close>, \<open>get_frequency\<close> returns the minimum
  of four 4-bit counters: for each \<open>i < 4\<close> the field of block
  \<open>get_table_index (m_table s) (get_hash e) i\<close> that starts at bit
  \<open>get_counter_offset (get_hash e) i\<close>. In a well-formed table the block is the hash
  multiplied by the \<open>i\<close>-th seed, with its upper half added, modulo the table length;
  the offset is \<open>4 * (4 * (hash AND 3) + i)\<close>. The function only reads the state (its
  result is a number, no state is returned). The result lies between 0 and 15, also after
  any number \<open>n\<close> of \<open>record_access\<close> calls for \<open>e\<close>: without an aging pass the
  estimate after these calls is the old estimate plus \<open>n\<close>, capped at 15, and once the
  estimate is 15 a further \<open>record_access e\<close> changes nothing. \<open>has\<close> holds exactly
  when the estimate is positive.
\<close>

theorem get_frequency_is_minimum:
  "get_frequency get_hash s e =
     Min ((\<lambda>i. uint (counter_at (m_table s ! nat (get_table_index (m_table s) (get_hash e) i))
                          (get_counter_offset (get_hash e) i))) ` {0, 1, 2, 3})
   \<and> SEEDS = [0xc3a5c85c97cb3127, 0xb492b66fbe98f273, 0x9ae16a3b2f90404f, 0xcbf29ce484222325]
   \<and> (table_ok (m_table s) \<longrightarrow>
        (\<forall>i<4. nat (get_table_index (m_table s) (get_hash e) i) =
           unat (SEEDS ! i * ucast (get_hash e) + drop_bit 32 (SEEDS ! i * ucast (get_hash e)))
             mod length (m_table s)))
   \<and> (\<forall>i<4. get_counter_offset (get_hash e) i = 4 * (4 * unat (get_hash e AND 3) + i))
   \<and> 0 \<le> get_frequency get_hash s e \<and> get_frequency get_hash s e \<le> 15
   \<and> get_frequency get_hash (record_all get_hash s (replicate n e)) e \<le> 15
   \<and> (table_ok (m_table s) \<and> no_aging get_hash s (replicate n e) \<longrightarrow>
        get_frequency get_hash (record_all get_hash s (replicate n e)) e
          = min 15 (get_frequency get_hash s e + int n))
   \<and> (table_ok (m_table s) \<and> get_frequency get_hash s e = 15 \<longrightarrow>
        record_access get_hash s e = s)
   \<and> (has get_hash s e \<longleftrightarrow> get_frequency get_hash s e > 0)"
proof -
  have range: "0 \<le> get_frequency get_hash s' e \<and> get_frequency get_hash s' e \<le> 15" for s'
    using get_count_range [of "m_table s'" "get_hash e" 0]
      get_count_range [of "m_table s'" "get_hash e" 1]
      get_count_range [of "m_table s'" "get_hash e" 2]
      get_count_range [of "m_table s'" "get_hash e" 3]
    unfolding get_frequency_eq by linarith
  have "get_frequency get_hash s e = Min ((\<lambda>i. get_count (m_table s) (get_hash e) i) ` {0, 1, 2, 3})"
    unfolding get_frequency_eq by (simp add: min.commute min.left_commute)
  then have m: "get_frequency get_hash s e =
     Min ((\<lambda>i. uint (counter_at (m_table s ! nat (get_table_index (m_table s) (get_hash e) i))
                          (get_counter_offset (get_hash e) i))) ` {0, 1, 2, 3})"
    by (simp only: get_count_uint)
  have idx: "table_ok (m_table s) \<longrightarrow>
        (\<forall>i<4. nat (get_table_index (m_table s) (get_hash e) i) =
           unat (SEEDS ! i * ucast (get_hash e) + drop_bit 32 (SEEDS ! i * ucast (get_hash e)))
             mod length (m_table s))"
    by (simp add: get_table_index_mod)
  have off: "\<forall>i<4. get_counter_offset (get_hash e) i = 4 * (4 * unat (get_hash e AND 3) + i)"
    by (simp add: get_counter_offset_eq)
  have rep: "table_ok (m_table s) \<and> no_aging get_hash s (replicate n e) \<longrightarrow>
        get_frequency get_hash (record_all get_hash s (replicate n e)) e
          = min 15 (get_frequency get_hash s e + int n)"
    by (simp add: get_frequency_record_all_replicate)
  have sat: "table_ok (m_table s) \<and> get_frequency get_hash s e = 15 \<longrightarrow>
        record_access get_hash s e = s"
    by (simp add: saturated_record_access)
  note r1 = range [of s] and r2 = range [of "record_all get_hash s (replicate n e)"]
  from m SEEDS_def idx off r1 [THEN conjunct1] r1 [THEN conjunct2] r2 [THEN conjunct2] rep sat
    has_def [of get_hash s e]
  show ?thesis by (intro conjI)
qed

text \<open>
  An instance: a two-block table in which the element 5 (identity hash) has its counters
  in block 1 at the offsets 16, 20, 28 (values 15, 14, 14) and in block 0 at offset 24
  (value 13). The estimate is 13, and 15 after three further accesses.
\<close>

theorem get_frequency_is_minimum_witness:
  "table_ok (m_table \<lparr>m_table = [0x0D000001, 0xE0EF0002], m_size = 0\<rparr>)
   \<and> no_aging (\<lambda>x. x) \<lparr>m_table = [0x0D000001, 0xE0EF0002], m_size = 0\<rparr> (replicate 3 (5 :: uint32_t))
   \<and> nat (get_table_index [0x0D000001, 0xE0EF0002] (5 :: uint32_t) 2) = 0
   \<and> get_counter_offset (5 :: uint32_t) 2 = 24
   \<and> get_frequency (\<lambda>x. x) \<lparr>m_table = [0x0D000001, 0xE0EF0002], m_size = 0\<rparr> (5 :: uint32_t) = 13
   \<and> has (\<lambda>x. x) \<lparr>m_table = [0x0D000001, 0xE0EF0002], m_size = 0\<rparr> (5 :: uint32_t)
   \<and> get_frequency (\<lambda>x. x)
        (record_all (\<lambda>x. x) \<lparr>m_table = [0x0D000001, 0xE0EF0002], m_size = 0\<rparr> (replicate 3 5))
        (5 :: uint32_t) = 15"
proof -
  let ?tbl = "[0x0D000001, 0xE0EF0002] :: uint64_t list"
  let ?st = "\<lparr>m_table = ?tbl, m_size = 0\<rparr>"
  have ok: "table_ok (m_table ?st)" by (rule table_okI [of 1]) simp_all
  have no: "no_aging (\<lambda>x. x) ?st (replicate 3 (5 :: uint32_t))" by code_simp
  have len: "length (m_table ?st) = 2" by simp
  have mod: "unat (SEEDS ! 2 * ucast (5 :: uint32_t) + drop_bit 32 (SEEDS ! 2 * ucast (5 :: uint32_t)))
      mod length (m_table ?st) = 0"
    by (simp only: len) (simp add: SEEDS_def drop_bit_eq_div)
  have off: "4 * (4 * unat ((5 :: uint32_t) AND 3) + 2) = (24 :: nat)" by code_simp
  have mn: "Min ((\<lambda>i. uint (counter_at (m_table ?st ! nat (get_table_index (m_table ?st) (5 :: uint32_t) i))
                          (get_counter_offset (5 :: uint32_t) i))) ` {0, 1, 2, 3}) = 13"
    by code_simp
  note T = get_frequency_is_minimum [of "\<lambda>x. x" ?st "5 :: uint32_t" 3]
  note T_min = T [THEN conjunct1]
  note T_idx = T [THEN conjunct2, THEN conjunct2, THEN conjunct1]
  note T_off = T [THEN conjunct2, THEN conjunct2, THEN conjunct2, THEN conjunct1]
  note T_rep = T [THEN conjunct2, THEN conjunct2, THEN conjunct2, THEN conjunct2, THEN conjunct2,
    THEN conjunct2, THEN conjunct2, THEN conjunct1]
  note T_has = T [THEN conjunct2, THEN conjunct2, THEN conjunct2, THEN conjunct2, THEN conjunct2,
    THEN conjunct2, THEN conjunct2, THEN conjunct2, THEN conjunct2]
  from T_min have gf: "get_frequency (\<lambda>x. x) ?st (5 :: uint32_t) = 13" by (simp only: mn)
  from T_has gf have hs: "has (\<lambda>x. x) ?st (5 :: uint32_t)" by simp
  from T_idx [rule_format, OF ok, of 2] have ix: "nat (get_table_index ?tbl (5 :: uint32_t) 2) = 0"
    by (simp only: mod) simp
  from T_off [rule_format, of 2] have of: "get_counter_offset (5 :: uint32_t) 2 = 24"
    by (simp only: off)
  from T_rep [rule_format, OF conjI [OF ok no]]
  have fin: "get_frequency (\<lambda>x. x) (record_all (\<lambda>x. x) ?st (replicate 3 5)) (5 :: uint32_t) = 15"
    by (simp only: gf)
  from ok no ix of gf hs fin show ?thesis by (intro conjI)
qed

subsection \<open>C4: the aging pass\<close>

text \<open>
  C4. \<open>halve\<close> shifts a block right by one and masks it with \<open>0x7777777777777777\<close>;
  thereby each of the sixteen counters \<open>c\<close> of the block becomes \<open>c div 2\<close>, whatever
  the neighbouring counters hold. \<open>reset\<close> does this to every block of the table and
  halves the tally by integer division.
\<close>

theorem reset_halves_counters:
  "halve w = drop_bit 1 w AND 0x7777777777777777
   \<and> (\<forall>j<16. unat (counter_at (halve w) (4 * j)) = unat (counter_at w (4 * j)) div 2)
   \<and> length (m_table (reset s)) = length (m_table s)
   \<and> (\<forall>p<length (m_table s). m_table (reset s) ! p = halve (m_table s ! p))
   \<and> (\<forall>p<length (m_table s). \<forall>j<16.
         unat (counter_at (m_table (reset s) ! p) (4 * j)) = unat (counter_at (m_table s ! p) (4 * j)) div 2)
   \<and> m_size (reset s) = m_size s sdiv 2
   \<and> (0 \<le> m_size s \<longrightarrow> m_size (reset s) = m_size s div 2)"
proof -
  have h: "unat (counter_at (halve v) (4 * j)) = unat (counter_at v (4 * j)) div 2" if "j < 16" for v j
    using that by (simp add: counter_at_halve drop_bit_eq_div unat_div)
  have "m_size s sdiv 2 = m_size s div 2" if "0 \<le> m_size s"
    using that by (simp add: signed_divide_int_def sgn_if)
  with h show ?thesis
    by (simp add: reset_def halve_def)
qed

text \<open>
  An instance: the block with the counters 0, 1, \<open>\<dots>\<close>, 15 next to a saturated block,
  and the tally 21.
\<close>

theorem reset_halves_counters_witness:
  "unat (counter_at (halve 0xFEDCBA9876543210) (4 * 15)) = 7
   \<and> unat (counter_at (halve 0xFEDCBA9876543210) (4 * 14)) = 7
   \<and> unat (counter_at (halve 0xFEDCBA9876543210) (4 * 1)) = 0
   \<and> (0 :: nat) < length [0xFEDCBA9876543210, 0xFFFFFFFFFFFFFFFF :: uint64_t]
   \<and> m_table (reset \<lparr>m_table = [0xFEDCBA9876543210, 0xFFFFFFFFFFFFFFFF], m_size = 21\<rparr>) ! 0
       = 0x7766554433221100
   \<and> (0 :: int) \<le> 21
   \<and> m_size (reset \<lparr>m_table = [0xFEDCBA9876543210, 0xFFFFFFFFFFFFFFFF], m_size = 21\<rparr>) = 10"
proof -
  let ?w = "0xFEDCBA9876543210 :: uint64_t"
  let ?s = "\<lparr>m_table = [?w, 0xFFFFFFFFFFFFFFFF], m_size = 21\<rparr>"
  note T = reset_halves_counters [of ?w ?s]
  have c: "unat (counter_at ?w (4 * 15)) = 15" "unat (counter_at ?w (4 * 14)) = 14"
    "unat (counter_at ?w (4 * 1)) = 1"
    by code_simp+
  have h: "halve ?w = 0x7766554433221100"
    by code_simp
  from T have a: "\<forall>j<16. unat (counter_at (halve ?w) (4 * j)) = unat (counter_at ?w (4 * j)) div 2"
    by blast
  from T have b: "\<forall>p<length (m_table ?s). m_table (reset ?s) ! p = halve (m_table ?s ! p)"
    by blast
  from T have d: "0 \<le> m_size ?s \<longrightarrow> m_size (reset ?s) = m_size ?s div 2"
    by blast
  have "unat (counter_at (halve ?w) (4 * 15)) = 7"
    using a [rule_format, of 15] by (simp only: c)
  moreover have "unat (counter_at (halve ?w) (4 * 14)) = 7"
    using a [rule_format, of 14] by (simp only: c)
  moreover have "unat (counter_at (halve ?w) (4 * 1)) = 0"
    using a [rule_format, of 1] by (simp only: c)
  moreover have "m_table (reset ?s) ! 0 = 0x7766554433221100"
    using b [rule_format, of 0] by (simp add: h)
  moreover have "m_size (reset ?s) = 10"
    using d by simp
  ultimately show ?thesis by simp
qed

subsection \<open>C8: the only error, and the table length\<close>

text \<open>
  C8. \<open>change_capacity\<close> and the constructor fail with \<open>invalid_argument\<close> exactly when
  the capacity is at most 0 (no other operation of the class can fail: \<open>invalid_argument\<close>
  is the only error value and only these two return it). For a positive capacity the
  table gets the length \<open>get_nearest_power_of_two capacity\<close>, the smallest power of two
  that is at least the capacity: 16 for the capacity 10.
\<close>

theorem capacity_error_and_table_length:
  "(fst (change_capacity s capacity) = Inl invalid_argument \<longleftrightarrow> capacity \<le> 0)
   \<and> (fst (change_capacity s capacity) = Inr () \<longleftrightarrow> 0 < capacity)
   \<and> (FrequencySketch_ctor u capacity = Inl invalid_argument \<longleftrightarrow> capacity \<le> 0)
   \<and> (0 < capacity \<longrightarrow>
        FrequencySketch_ctor u capacity =
          Inr \<lparr>m_table = replicate (get_nearest_power_of_two (nat capacity)) 0, m_size = 0\<rparr>
        \<and> length (m_table (snd (change_capacity s capacity))) = get_nearest_power_of_two (nat capacity)
        \<and> (\<exists>k. get_nearest_power_of_two (nat capacity) = 2 ^ k)
        \<and> nat capacity \<le> get_nearest_power_of_two (nat capacity)
        \<and> (\<forall>j. nat capacity \<le> 2 ^ j \<longrightarrow> get_nearest_power_of_two (nat capacity) \<le> 2 ^ j))
   \<and> get_nearest_power_of_two 10 = 16"
proof -
  have "\<exists>k. get_nearest_power_of_two (nat capacity) = 2 ^ k"
    unfolding get_nearest_power_of_two_def by (rule exI) (rule refl)
  then show ?thesis
    by (simp add: change_capacity_def FrequencySketch_ctor_def length_resize resize_Nil
        get_nearest_power_of_two_ge get_nearest_power_of_two_least get_nearest_power_of_two_10)
qed

text \<open>An instance: the capacity 10 on a sketch of one block, and construction with 10.\<close>

theorem capacity_error_and_table_length_witness:
  "(0 :: int) < 10
   \<and> fst (change_capacity \<lparr>m_table = [0x1111], m_size = 1\<rparr> 10) = Inr ()
   \<and> length (m_table (snd (change_capacity \<lparr>m_table = [0x1111], m_size = 1\<rparr> 10))) = 16
   \<and> FrequencySketch_ctor 0 10 = Inr \<lparr>m_table = replicate 16 0, m_size = 0\<rparr>
   \<and> (10 :: nat) \<le> 2 ^ 4 \<and> get_nearest_power_of_two (nat 10) \<le> 2 ^ 4"
  using capacity_error_and_table_length [of "\<lparr>m_table = [0x1111], m_size = 1\<rparr>" 10 0]
  by (simp add: get_nearest_power_of_two_10)

subsection \<open>C9: a failed resize changes nothing\<close>

text \<open>
  C9. When \<open>change_capacity\<close> is called with a capacity of at most 0, the exception is
  raised before anything is assigned: the object after the call is the object before it,
  so the table, the tally and every later \<open>get_frequency\<close> result are unchanged.
\<close>

theorem failed_change_capacity_leaves_state:
  assumes "capacity \<le> 0"
  shows "change_capacity s capacity = (Inl invalid_argument, s)
         \<and> m_table (snd (change_capacity s capacity)) = m_table s
         \<and> m_size (snd (change_capacity s capacity)) = m_size s
         \<and> get_frequency get_hash (snd (change_capacity s capacity)) e = get_frequency get_hash s e"
  using assms by (simp add: change_capacity_def)

text \<open>An instance: the capacity \<open>-3\<close> on a sketch that has recorded one access.\<close>

theorem failed_change_capacity_leaves_state_witness:
  "(- 3 :: int) \<le> 0
   \<and> change_capacity \<lparr>m_table = [0x1111], m_size = 1\<rparr> (- 3)
       = (Inl invalid_argument, \<lparr>m_table = [0x1111], m_size = 1\<rparr>)
   \<and> get_frequency (\<lambda>x. x) (snd (change_capacity \<lparr>m_table = [0x1111], m_size = 1\<rparr> (- 3))) (0 :: 32 word) = 1"
proof -
  have le: "(- 3 :: int) \<le> 0" by simp
  have "get_frequency (\<lambda>x. x) \<lparr>m_table = [0x1111], m_size = 1\<rparr> (0 :: 32 word) = 1"
    by code_simp
  with failed_change_capacity_leaves_state
    [OF le, of "\<lparr>m_table = [0x1111], m_size = 1\<rparr>" "\<lambda>x. x" "0 :: 32 word"]
  show ?thesis by simp
qed

subsection \<open>C5: the saturating increment\<close>

text \<open>
  C5, as amended. For every sketch with a well-formed table, every element and each of
  its four counters (\<open>i < 4\<close>): the increment step of \<open>record_access\<close>,
  \<open>try_increment_at\<close>, adds exactly 1 to the counter and reports \<open>True\<close> when the
  counter is below 15, and leaves the whole table as it is and reports \<open>False\<close> when the
  counter is 15. The loop of \<open>record_access\<close> does this to each of the four counters.
  When the call does not run the aging pass, that is the value of the counter after
  \<open>record_access\<close>; when the call ends with the aging pass, the value after
  \<open>record_access\<close> is that value halved, rounded down. \<open>record_access\<close> has no failing
  outcome: it returns a sketch for every input.
\<close>

theorem record_access_saturating_increment:
  assumes ok: "table_ok (m_table s)" and i: "i < 4"
  shows "(get_count (m_table s) (get_hash t) i < 15 \<longrightarrow>
            snd (try_increment_at (m_table s) (get_hash t) i)
            \<and> get_count (fst (try_increment_at (m_table s) (get_hash t) i)) (get_hash t) i
                = get_count (m_table s) (get_hash t) i + 1)
       \<and> (\<not> get_count (m_table s) (get_hash t) i < 15 \<longrightarrow>
            get_count (m_table s) (get_hash t) i = 15
            \<and> \<not> snd (try_increment_at (m_table s) (get_hash t) i)
            \<and> fst (try_increment_at (m_table s) (get_hash t) i) = m_table s)
       \<and> get_count (fst (increment_all (m_table s) (get_hash t))) (get_hash t) i =
            (if get_count (m_table s) (get_hash t) i < 15
             then get_count (m_table s) (get_hash t) i + 1
             else get_count (m_table s) (get_hash t) i)
       \<and> m_table (record_access get_hash s t) =
            (if aging_triggers get_hash s t
             then map halve (fst (increment_all (m_table s) (get_hash t)))
             else fst (increment_all (m_table s) (get_hash t)))
       \<and> (\<not> aging_triggers get_hash s t \<longrightarrow>
            get_count (m_table (record_access get_hash s t)) (get_hash t) i =
              (if get_count (m_table s) (get_hash t) i < 15
               then get_count (m_table s) (get_hash t) i + 1
               else get_count (m_table s) (get_hash t) i))
       \<and> (aging_triggers get_hash s t \<longrightarrow>
            get_count (m_table (record_access get_hash s t)) (get_hash t) i =
              (if get_count (m_table s) (get_hash t) i < 15
               then get_count (m_table s) (get_hash t) i + 1
               else get_count (m_table s) (get_hash t) i) div 2)"
proof -
  let ?tbl = "m_table s" and ?h = "get_hash t"
  have r: "get_count ?tbl ?h i < 15 \<longleftrightarrow> get_count ?tbl ?h i \<noteq> 15"
    using get_count_range [of ?tbl ?h i] by linarith
  have ok': "table_ok (fst (increment_all ?tbl ?h))" using ok by simp
  have aged: "get_count (map halve (fst (increment_all ?tbl ?h))) ?h i =
      (if get_count ?tbl ?h i \<noteq> 15 then get_count ?tbl ?h i + 1 else get_count ?tbl ?h i) div 2"
    unfolding get_count_map_halve [OF ok' i] get_count_increment_all_same [OF ok i] ..
  show ?thesis
    unfolding r
    using try_increment_at_unchanged [of ?tbl ?h i] aged
    by (simp add: snd_try_increment_at_count [OF i] get_count_try_increment_at_same [OF ok i]
        get_count_increment_all_same [OF ok i] m_table_record_access)
qed

text \<open>
  Two instances: a one-block sketch with tally 0, where the counters 0 and 3 of the
  element 0 hold 2 and 15; and a two-block sketch with tally 19 (threshold 20), where the
  access to the element 1 runs the aging pass and its saturated counter 0 ends at 7.
\<close>

theorem record_access_saturating_increment_witness:
  "table_ok (m_table \<lparr>m_table = [0xF352], m_size = 0\<rparr>)
   \<and> (0 :: nat) < 4 \<and> (3 :: nat) < 4
   \<and> get_count [0xF352] (0 :: uint32_t) 0 < 15
   \<and> snd (try_increment_at [0xF352] (0 :: uint32_t) 0)
   \<and> get_count (fst (try_increment_at [0xF352] (0 :: uint32_t) 0)) 0 0 = 3
   \<and> \<not> get_count [0xF352] (0 :: uint32_t) 3 < 15
   \<and> fst (try_increment_at [0xF352] (0 :: uint32_t) 3) = [0xF352]
   \<and> \<not> aging_triggers (\<lambda>x. x) \<lparr>m_table = [0xF352], m_size = 0\<rparr> (0 :: uint32_t)
   \<and> get_count (m_table (record_access (\<lambda>x. x) \<lparr>m_table = [0xF352], m_size = 0\<rparr> (0 :: uint32_t))) 0 3 = 15
   \<and> table_ok (m_table \<lparr>m_table = [0x0F004444, 0xF0FF0000], m_size = 19\<rparr>)
   \<and> aging_triggers (\<lambda>x. x) \<lparr>m_table = [0x0F004444, 0xF0FF0000], m_size = 19\<rparr> (1 :: uint32_t)
   \<and> get_count (m_table (record_access (\<lambda>x. x)
          \<lparr>m_table = [0x0F004444, 0xF0FF0000], m_size = 19\<rparr> (1 :: uint32_t))) 1 0 = 7"
proof -
  let ?st = "\<lparr>m_table = [0xF352], m_size = 0\<rparr>"
  let ?full = "\<lparr>m_table = [0x0F004444, 0xF0FF0000], m_size = 19\<rparr>"
  have ok: "table_ok (m_table ?st)" by (simp add: table_ok_single)
  have c0: "get_count [0xF352] (0 :: uint32_t) 0 = 2" by code_simp
  have c3: "get_count [0xF352] (0 :: uint32_t) 3 = 15" by code_simp
  have na: "\<not> aging_triggers (\<lambda>x. x) ?st (0 :: uint32_t)" by code_simp
  have ok2: "table_ok (m_table ?full)" by (rule table_okI [of 1]) simp_all
  have ag: "aging_triggers (\<lambda>x. x) ?full (1 :: uint32_t)" by code_simp
  have c: "get_count (m_table ?full) (1 :: uint32_t) 0 = 15" by code_simp
  note A = record_access_saturating_increment [OF ok2, of 0 "\<lambda>x. x" "1 :: uint32_t"]
  have "get_count (m_table (record_access (\<lambda>x. x) ?full (1 :: uint32_t))) 1 0 =
      (if get_count (m_table ?full) (1 :: uint32_t) 0 < 15
       then get_count (m_table ?full) (1 :: uint32_t) 0 + 1
       else get_count (m_table ?full) (1 :: uint32_t) 0) div 2"
    using A [THEN conjunct2, THEN conjunct2, THEN conjunct2, THEN conjunct2, THEN conjunct2] ag
    by simp
  then have aged: "get_count (m_table (record_access (\<lambda>x. x) ?full (1 :: uint32_t))) 1 0 = 7"
    by (simp only: c) simp
  from record_access_saturating_increment [OF ok, of 0 "\<lambda>x. x" "0 :: uint32_t"]
    record_access_saturating_increment [OF ok, of 3 "\<lambda>x. x" "0 :: uint32_t"]
  have "(0 :: nat) < 4 \<and> (3 :: nat) < 4
   \<and> get_count [0xF352] (0 :: uint32_t) 0 < 15
   \<and> snd (try_increment_at [0xF352] (0 :: uint32_t) 0)
   \<and> get_count (fst (try_increment_at [0xF352] (0 :: uint32_t) 0)) 0 0 = 3
   \<and> \<not> get_count [0xF352] (0 :: uint32_t) 3 < 15
   \<and> fst (try_increment_at [0xF352] (0 :: uint32_t) 3) = [0xF352]
   \<and> get_count (m_table (record_access (\<lambda>x. x) ?st (0 :: uint32_t))) 0 3 = 15"
    using ok na by (simp add: c0 c3)
  with ok na ok2 ag aged show ?thesis by blast
qed

text \<open>
  C5 as stated (after \<open>record_access\<close> a counter below 15 is one higher and a counter at
  15 is unchanged, in every state) fails when the call runs the aging pass. The sketch
  constructed with capacity 2 reaches the tally 19 after fifteen accesses to the element 5
  and four to the element 4 (identity hash). The element 1 shares its counter 0 with the
  element 5, so that counter is 15, and its counter 1 is 0. The access to 1 increments
  counter 1, the tally reaches the threshold 20, and the aging pass leaves counter 0 at 7
  and counter 1 at 0.
\<close>

theorem saturated_counter_halved_counterexample:
  "FrequencySketch_ctor 0 2 = Inr \<lparr>m_table = [0, 0], m_size = 0\<rparr>
   \<and> record_all (\<lambda>x. x) \<lparr>m_table = [0, 0], m_size = 0\<rparr> (replicate 15 (5 :: uint32_t) @ replicate 4 4)
       = \<lparr>m_table = [0x0F004444, 0xF0FF0000], m_size = 19\<rparr>
   \<and> get_count [0x0F004444, 0xF0FF0000] (1 :: uint32_t) 0 = 15
   \<and> get_count (m_table (record_access (\<lambda>x. x)
          \<lparr>m_table = [0x0F004444, 0xF0FF0000], m_size = 19\<rparr> (1 :: uint32_t))) 1 0 = 7
   \<and> get_count [0x0F004444, 0xF0FF0000] (1 :: uint32_t) 1 = 0
   \<and> get_count (m_table (record_access (\<lambda>x. x)
          \<lparr>m_table = [0x0F004444, 0xF0FF0000], m_size = 19\<rparr> (1 :: uint32_t))) 1 1 = 0"
  by code_simp

subsection \<open>C7: recording never lowers an estimate\<close>

text \<open>
  C7. For every sketch with a well-formed table and all elements \<open>e\<close> and \<open>e'\<close>
  (equal or not): when the call \<open>record_access e'\<close> does not run the aging pass, the
  estimate of \<open>e\<close> after the call is at least the estimate before it.
\<close>

theorem record_access_monotone:
  assumes ok: "table_ok (m_table s)" and no: "\<not> aging_triggers get_hash s e'"
  shows "get_frequency get_hash s e \<le> get_frequency get_hash (record_access get_hash s e') e"
proof -
  have t: "m_table (record_access get_hash s e') = fst (increment_all (m_table s) (get_hash e'))"
    using no by (simp add: m_table_record_access)
  have "get_count (m_table s) (get_hash e) i
      \<le> get_count (m_table (record_access get_hash s e')) (get_hash e) i" if "i < 4" for i
    unfolding t using ok that by (rule get_count_increment_all_mono)
  from this [of 0] this [of 1] this [of 2] this [of 3] show ?thesis
    unfolding get_frequency_eq by (simp add: min_le_iff_disj)
qed

text \<open>
  An instance: on a one-block table the elements 0 and 4 (identity hash) share their four
  counters; recording 4 raises the estimate of 0 from 2 to 3.
\<close>

theorem record_access_monotone_witness:
  "table_ok (m_table \<lparr>m_table = [0x9352], m_size = 0\<rparr>)
   \<and> \<not> aging_triggers (\<lambda>x. x) \<lparr>m_table = [0x9352], m_size = 0\<rparr> (4 :: uint32_t)
   \<and> get_frequency (\<lambda>x. x) \<lparr>m_table = [0x9352], m_size = 0\<rparr> (0 :: uint32_t) = 2
   \<and> get_frequency (\<lambda>x. x) \<lparr>m_table = [0x9352], m_size = 0\<rparr> (0 :: uint32_t)
       \<le> get_frequency (\<lambda>x. x)
            (record_access (\<lambda>x. x) \<lparr>m_table = [0x9352], m_size = 0\<rparr> (4 :: uint32_t)) 0"
proof -
  let ?s = "\<lparr>m_table = [0x9352], m_size = 0\<rparr>"
  have ok: "table_ok (m_table ?s)" by (simp add: table_ok_single)
  have na: "\<not> aging_triggers (\<lambda>x. x) ?s (4 :: uint32_t)" by code_simp
  have f: "get_frequency (\<lambda>x. x) ?s (0 :: uint32_t) = 2" by code_simp
  from record_access_monotone [OF ok na, of 0] show ?thesis
    using ok na f by simp
qed

subsection \<open>C10: an increment changes one counter only\<close>

text \<open>
  C10. A successful \<open>try_increment_at\<close> on a well-formed table keeps the length of the
  table, leaves every block other than the addressed one as it is, leaves every other
  counter of the addressed block as it is, and raises the addressed counter, which was
  below 15, by exactly 1: the addition does not carry into the neighbouring counter.
\<close>

theorem increment_touches_one_counter:
  assumes ok: "table_ok tbl" and i: "i < 4" and inc: "snd (try_increment_at tbl hash i)"
  shows "length (fst (try_increment_at tbl hash i)) = length tbl
    \<and> (\<forall>p<length tbl. \<forall>j<16.
          (p, 4 * j) \<noteq> (nat (get_table_index tbl hash i), get_counter_offset hash i) \<longrightarrow>
          counter_at (fst (try_increment_at tbl hash i) ! p) (4 * j) = counter_at (tbl ! p) (4 * j))
    \<and> (\<forall>p<length tbl. p \<noteq> nat (get_table_index tbl hash i) \<longrightarrow>
          fst (try_increment_at tbl hash i) ! p = tbl ! p)
    \<and> unat (counter_at (tbl ! nat (get_table_index tbl hash i)) (get_counter_offset hash i)) < 15
    \<and> unat (counter_at (fst (try_increment_at tbl hash i) ! nat (get_table_index tbl hash i))
               (get_counter_offset hash i))
        = unat (counter_at (tbl ! nat (get_table_index tbl hash i)) (get_counter_offset hash i)) + 1"
proof -
  let ?idx = "nat (get_table_index tbl hash i)"
  from i obtain a where a: "a < 16" and off: "get_counter_offset hash i = 4 * a"
    by (rule get_counter_offset_cases)
  have idx: "?idx < length tbl" using ok by (rule nat_index_less)
  from inc have ne: "counter_at (tbl ! ?idx) (4 * a) \<noteq> 15"
    by (simp add: snd_try_increment_at [OF i] off)
  have lt: "unat (counter_at (tbl ! ?idx) (4 * a)) < 15"
    using ne unat_counter_at_less [of "tbl ! ?idx" "4 * a"] int_unat_eq_15 [of "counter_at (tbl ! ?idx) (4 * a)"]
    by linarith
  have "counter_at (fst (try_increment_at tbl hash i) ! ?idx) (4 * a) = counter_at (tbl ! ?idx) (4 * a) + 1"
    using ne by (simp add: counter_at_try_increment_at [OF ok i idx a] off)
  then have incr: "unat (counter_at (fst (try_increment_at tbl hash i) ! ?idx) (4 * a))
      = unat (counter_at (tbl ! ?idx) (4 * a)) + 1"
    using unat_counter_at_succ [OF ne] by simp
  have frame: "counter_at (fst (try_increment_at tbl hash i) ! p) (4 * j) = counter_at (tbl ! p) (4 * j)"
    if "p < length tbl" "j < 16" "(p, 4 * j) \<noteq> (?idx, 4 * a)" for p j
    using that by (auto simp add: counter_at_try_increment_at [OF ok i that(1,2)] off)
  show ?thesis
    unfolding off using frame lt incr by (simp add: slot_try_increment_at)
qed

text \<open>
  An instance: in the two-block table below, the element 5 (identity hash) has its
  counter number 1 in block 1 at offset 20, where the value is 14; the increment makes it
  15, and the counters on both sides keep their value 15.
\<close>

theorem increment_touches_one_counter_witness:
  "table_ok [0x1234, 0xFEF0000]
   \<and> (1 :: nat) < 4
   \<and> snd (try_increment_at [0x1234, 0xFEF0000] (5 :: uint32_t) 1)
   \<and> nat (get_table_index [0x1234, 0xFEF0000] (5 :: uint32_t) 1) = 1
   \<and> get_counter_offset (5 :: uint32_t) 1 = 20
   \<and> unat (counter_at (fst (try_increment_at [0x1234, 0xFEF0000] (5 :: uint32_t) 1) ! 1) 20) = 15
   \<and> counter_at (fst (try_increment_at [0x1234, 0xFEF0000] (5 :: uint32_t) 1) ! 1) (4 * 4) = 15
   \<and> counter_at (fst (try_increment_at [0x1234, 0xFEF0000] (5 :: uint32_t) 1) ! 1) (4 * 6) = 15
   \<and> fst (try_increment_at [0x1234, 0xFEF0000] (5 :: uint32_t) 1) ! 0 = 0x1234"
proof -
  let ?tbl = "[0x1234, 0xFEF0000] :: uint64_t list"
  have ok: "table_ok ?tbl" by (rule table_okI [of 1]) simp_all
  have i: "(1 :: nat) < 4" by simp
  have inc: "snd (try_increment_at ?tbl (5 :: uint32_t) 1)" by code_simp
  have idx: "nat (get_table_index ?tbl (5 :: uint32_t) 1) = 1" by code_simp
  have off: "get_counter_offset (5 :: uint32_t) 1 = 20" by code_simp
  have old: "unat (counter_at (?tbl ! 1) 20) = 14" "counter_at (?tbl ! 1) (4 * 4) = 15"
    "counter_at (?tbl ! 1) (4 * 6) = 15"
    by code_simp+
  note T = increment_touches_one_counter [OF ok i inc, unfolded idx off]
  from T have frame: "\<forall>p<length ?tbl. \<forall>j<16. (p, 4 * j) \<noteq> (1, 20) \<longrightarrow>
      counter_at (fst (try_increment_at ?tbl 5 1) ! p) (4 * j) = counter_at (?tbl ! p) (4 * j)"
    by blast
  from T have slot: "\<forall>p<length ?tbl. p \<noteq> 1 \<longrightarrow> fst (try_increment_at ?tbl 5 1) ! p = ?tbl ! p"
    by blast
  from T have incr: "unat (counter_at (fst (try_increment_at ?tbl 5 1) ! 1) 20)
      = unat (counter_at (?tbl ! 1) 20) + 1"
    by blast
  have "counter_at (fst (try_increment_at ?tbl 5 1) ! 1) (4 * 4) = 15"
    using frame [rule_format, of 1 4] old(2) by simp
  moreover have "counter_at (fst (try_increment_at ?tbl 5 1) ! 1) (4 * 6) = 15"
    using frame [rule_format, of 1 6] old(3) by simp
  moreover have "fst (try_increment_at ?tbl 5 1) ! 0 = 0x1234"
    using slot [rule_format, of 0] by simp
  moreover have "unat (counter_at (fst (try_increment_at ?tbl 5 1) ! 1) 20) = 15"
    using incr old(1) by simp
  ultimately show ?thesis
    using ok inc idx off by simp
qed

subsection \<open>C6: a fresh sketch counts exactly\<close>

text \<open>
  C6. Start from a freshly constructed sketch (the capacity is a C++ \<open>int\<close>, hence below
  \<open>2 ^ 31\<close>) and run any sequence \<open>ts\<close> of \<open>record_access\<close> calls in which \<open>e\<close>
  occurs \<open>k \<le> 15\<close> times, every other element does not collide with \<open>e\<close>, and no call
  runs the aging pass. Then \<open>get_frequency e\<close> is exactly \<open>k\<close>.
\<close>

theorem fresh_sketch_counts_exactly:
  assumes ctor: "FrequencySketch_ctor u capacity = Inr s0"
    and cap: "capacity < 2 ^ 31"
    and k: "count_list ts e \<le> 15"
    and no: "no_aging get_hash s0 ts"
    and apart: "\<forall>t\<in>set ts. t = e \<or> \<not> collides (m_table s0) (get_hash t) (get_hash e)"
  shows "get_frequency get_hash (record_all get_hash s0 ts) e = int (count_list ts e)"
proof -
  note c = FrequencySketch_ctor_Inr [OF ctor]
  have ok: "table_ok (m_table s0)"
    using table_ok_nearest [OF c(1) cap] by (simp add: c(2))
  then have zero: "\<forall>i<4. get_count (m_table s0) (get_hash e) i = int 0"
    by (simp add: c(2) get_count_zero_table)
  from k have "0 + count_list ts e \<le> 15" by simp
  from record_all_counts [OF ok zero this no apart]
  show ?thesis
    unfolding get_frequency_eq by simp
qed

text \<open>
  An instance: capacity 10 (16 blocks), identity hash, the element 7 recorded three times
  with the element 4 in between.
\<close>

theorem fresh_sketch_counts_exactly_witness:
  "FrequencySketch_ctor 0 10 = Inr \<lparr>m_table = replicate 16 0, m_size = 0\<rparr>
   \<and> (10 :: int) < 2 ^ 31
   \<and> count_list [7, 4, 7, 7 :: uint32_t] 7 \<le> 15
   \<and> no_aging (\<lambda>x. x) \<lparr>m_table = replicate 16 0, m_size = 0\<rparr> [7, 4, 7, 7 :: uint32_t]
   \<and> \<not> collides (replicate 16 0) 4 7
   \<and> get_frequency (\<lambda>x. x)
        (record_all (\<lambda>x. x) \<lparr>m_table = replicate 16 0, m_size = 0\<rparr> [7, 4, 7, 7 :: uint32_t]) 7 = 3"
proof -
  let ?init = "\<lparr>m_table = replicate 16 0, m_size = 0\<rparr>"
  let ?ts = "[7, 4, 7, 7 :: uint32_t]"
  have ctor: "FrequencySketch_ctor 0 10 = Inr ?init" by code_simp
  have cap: "(10 :: int) < 2 ^ 31" by simp
  have k: "count_list ?ts 7 \<le> 15" by simp
  have no: "no_aging (\<lambda>x. x) ?init ?ts" by code_simp
  have ap: "\<not> collides (replicate 16 0) 4 7" by code_simp
  then have apart: "\<forall>t\<in>set ?ts. t = 7 \<or> \<not> collides (m_table ?init) t 7" by simp
  have cl: "int (count_list ?ts 7) = 3" by simp
  note res = fresh_sketch_counts_exactly [OF ctor cap k no apart, unfolded cl]
  from ctor cap k no ap res show ?thesis by (intro conjI)
qed

subsection \<open>C2: when the aging pass runs\<close>




subsection \<open>C1: resizing an existing sketch\<close>

text \<open>
  C1 fails on the code. \<open>change_capacity\<close> calls \<^verbatim>\<open>m_table.resize\<close>, which keeps the
  blocks that are already there. A sketch constructed with capacity 10 that has
  recorded the element 7 once (identity hash) and is then resized to capacity 10 still
  holds the counters of 7, and \<open>get_frequency\<close> returns 1, not 0.
\<close>

theorem change_capacity_keeps_old_counters:
  "FrequencySketch_ctor 0 10 = Inr \<lparr>m_table = replicate 16 0, m_size = 0\<rparr>
   \<and> get_frequency (\<lambda>x. x)
        (record_access (\<lambda>x. x) \<lparr>m_table = replicate 16 0, m_size = 0\<rparr> (7 :: uint32_t)) 7 = 1
   \<and> fst (change_capacity
        (record_access (\<lambda>x. x) \<lparr>m_table = replicate 16 0, m_size = 0\<rparr> (7 :: uint32_t)) 10) = Inr ()
   \<and> m_table (snd (change_capacity
        (record_access (\<lambda>x. x) \<lparr>m_table = replicate 16 0, m_size = 0\<rparr> (7 :: uint32_t)) 10))
       = m_table (record_access (\<lambda>x. x) \<lparr>m_table = replicate 16 0, m_size = 0\<rparr> (7 :: uint32_t))
   \<and> get_frequency (\<lambda>x. x)
        (snd (change_capacity
          (record_access (\<lambda>x. x) \<lparr>m_table = replicate 16 0, m_size = 0\<rparr> (7 :: uint32_t)) 10)) 7 = 1"
  by code_simp

end
